theory Spec2Isabelle
  imports Main "HOL-Library.Word" "HOL-Library.AList" "HOL-Library.Sublist"
begin

section \<open>The Runner of go-service (runner.go)\<close>

text \<open>
  The Runner keeps a registry of running services behind one lock. Each of its
  operations (Start, Halt, Shutdown, the end path \<open>ended\<close>) does its work on the
  registry inside one critical section and, for Start, Halt and Shutdown, then blocks
  in a \<open>select\<close> on a Signal and on the caller's context. The model follows that
  shape: every critical section is one function on an explicit \<open>world\<close> (the runner,
  the records it points to, the Signals and the descriptors of the caller), the steps
  that workers take while a caller is blocked, or between two critical sections of one
  call, are a list of \<open>action\<close>s, and the \<open>select\<close> is a function of the branch taken.
  The order in which a critical section locks, deletes, notifies and unlocks is
  written to the \<open>trace\<close> of the world, statement by statement.
\<close>

subsection \<open>Data\<close>

text \<open>
  Modelled from the spec: the declarations of \<open>State\<close>, \<open>Stage\<close> and \<open>RunnerState\<close>
  are not in runner.go, which names their values. "One of: Halted, Starting, Started,
  Halting, Ended"; "StageReady or StageRun"; "Enabled | Suspended | Shutdown",
  "initial Enabled".
\<close>

datatype State = Halted | Starting | Started | Halting | Ended

datatype Stage = StageReady | StageRun

datatype RunnerState = RunnerEnabled | RunnerSuspended | RunnerShutdown

text \<open>
  Go's \<open>error\<close> values; \<open>nil\<close> is \<open>None\<close> of \<open>error option\<close>. \<open>Errorf\<close> is
  \<open>fmt.Errorf\<close> (also any error a Runnable returns), \<open>errState\<close> the state error with
  its fields Expected, To and Current, \<open>Canceled\<close> and \<open>DeadlineExceeded\<close> what
  \<open>ctx.Err()\<close> returns, \<open>serviceErrors\<close> the aggregate \<open>&serviceErrors{errors: errs}\<close>.
\<close>

datatype error =
    Errorf string
  | errState State State State
  | Canceled
  | DeadlineExceeded
  | serviceErrors "error list"

text \<open>
  A service descriptor, the struct \<open>Service\<close>: \<open>Runnable\<close> is \<open>None\<close> for a nil
  Runnable, \<open>OnEnd\<close> and \<open>OnState\<close> say whether the callback is set. These are the
  fields runner.go reads; the display name plays no part in it and is left out.

  The runner is given pointers \<open>*Service\<close>, uses the pointer as the key of its map and
  reads the fields through the pointer when it needs them; the descriptor belongs to
  the caller, who may change its fields between calls. So a \<open>*Service\<close> is a pointer
  into the \<open>descriptors\<close> of the world, a natural number (two descriptors with equal
  fields are still two keys), and a nil \<open>*Service\<close> is \<open>None\<close> of \<open>nat option\<close>. Go
  has no dangling pointers: a pointer outside \<open>descriptors\<close> stands for a descriptor
  of whose fields nothing is known.
\<close>

record Service =
  Runnable :: "nat option"
  OnEnd :: bool
  OnState :: bool

text \<open>
  Modelled from the spec: a Signal, "a completion latch of capacity N holding N error
  slots": \<open>cap\<close> completions are awaited, \<open>slots\<close> are those received so far.
\<close>

record Signal =
  cap :: nat
  slots :: "error option list"

text \<open>A channel \<open>chan struct{}\<close>: open or closed; a nil channel is \<open>None\<close>.\<close>

datatype chan = Open | Closed

text \<open>
  Modelled from the spec: the struct \<open>runnerService\<close>, whose declaration is not in
  runner.go. The end path reads and writes its fields \<open>service\<close>, \<open>stage\<close>,
  \<open>waiters\<close>, \<open>done\<close> and \<open>readyCalled\<close>; the spec adds the current State and "a
  unique monotonic ID". \<open>ready\<close> is the Signal that \<open>newRunnerService\<close> is given, the
  one of the Start call that still waits for this service; \<open>waiters\<close> are the Signals
  of the Halt and Shutdown calls that wait for its end. Signals are pointers into
  the Signals of the world, \<open>service\<close> is the \<open>*Service\<close>.
\<close>

record runnerService =
  rs_id :: "64 word"
  service :: nat
  ready :: "nat option"
  stage :: Stage
  state :: State
  waiters :: "nat list"
  rs_done :: "chan option"
  readyCalled :: bool

text \<open>What a critical section does, in the order it does it.\<close>

datatype event =
    EvLock
  | EvUnlock
  | EvRsLock nat
  | EvRsUnlock nat
  | EvDelete nat
  | EvDone nat "error option"
  | EvGoRun nat
  | EvGoOnEnd Stage nat "error option"
  | EvGoOnState nat State State

text \<open>
  The struct \<open>runner\<close> (\<open>onEnd\<close>, \<open>onError\<close>, \<open>onState\<close>: whether the listener is set;
  \<open>nextID\<close>; \<open>services\<close>, the map \<open>map[*Service]*runnerService\<close>, as an association
  list from pointers into \<open>descriptors\<close> to pointers into \<open>heap\<close>; \<open>rn_state\<close>)
  together with the objects it points to: the \<open>runnerService\<close> records in \<open>heap\<close>, the
  Signals in \<open>signals\<close> and the caller's descriptors in \<open>descriptors\<close>, all addressed
  by their index, and the trace.
\<close>

record world =
  onEnd :: bool
  onError :: bool
  onState :: bool
  nextID :: "64 word"
  services :: "(nat \<times> nat) list"
  rn_state :: RunnerState
  heap :: "runnerService list"
  signals :: "Signal list"
  descriptors :: "Service list"
  trace :: "event list"

text \<open>
  \<open>NewRunner\<close> without options: an empty registry; the zero RunnerState is Enabled.
  It is the world in which the caller has not made any descriptor yet.
\<close>

definition NewRunner :: world where
  "NewRunner = \<lparr>onEnd = False, onError = False, onState = False, nextID = 0,
     services = [], rn_state = RunnerEnabled, heap = [], signals = [], descriptors = [],
     trace = []\<rparr>"

text \<open>A context: \<open>ctx.Err()\<close>, which is nil while the context is not done.\<close>

type_synonym Context = "error option"

subsection \<open>The lock, the trace, the listeners\<close>

definition emit :: "world \<Rightarrow> event \<Rightarrow> world" where
  "emit w e = w\<lparr>trace := trace w @ [e]\<rparr>"

definition Lock :: "world \<Rightarrow> world" where
  "Lock w = emit w EvLock"

definition Unlock :: "world \<Rightarrow> world" where
  "Unlock w = emit w EvUnlock"

definition upd_rs :: "world \<Rightarrow> nat \<Rightarrow> (runnerService \<Rightarrow> runnerService) \<Rightarrow> world" where
  "upd_rs w p f = w\<lparr>heap := (heap w)[p := f (heap w ! p)]\<rparr>"

text \<open>\<open>service.OnEnd\<close>, \<open>service.OnState\<close>: the field as it is when it is read.\<close>

definition raiseOnEnded :: "world \<Rightarrow> Stage \<Rightarrow> nat \<Rightarrow> error option \<Rightarrow> world" where
  "raiseOnEnded w stg svc err =
     (let w1 = (if onEnd w then emit w (EvGoOnEnd stg svc err) else w)
      in if OnEnd (descriptors w ! svc) then emit w1 (EvGoOnEnd stg svc err) else w1)"

definition raiseOnState :: "world \<Rightarrow> nat \<Rightarrow> State \<Rightarrow> State \<Rightarrow> world" where
  "raiseOnState w svc from to =
     (let w1 = (if onState w then emit w (EvGoOnState svc from to) else w)
      in if OnState (descriptors w ! svc) then emit w1 (EvGoOnState svc from to) else w1)"

subsection \<open>Signals\<close>

text \<open>
  The Signal type and \<open>Errors\<close> are not in runner.go. The spec has: "a completion
  latch of capacity N holding N error slots; the consumer sees a single aggregated
  error (nil iff all N completions reported nil)", and "an aggregate error exposes
  the per-component errors through a standard Errors() accessor".
\<close>

text \<open>
  Modelled from the spec: \<open>NewSignal(n)\<close> allocates a Signal of capacity \<open>n\<close> with no
  slot filled; the caller holds a pointer to it.
\<close>

definition NewSignal :: "world \<Rightarrow> nat \<Rightarrow> world \<times> nat" where
  "NewSignal w n = (w\<lparr>signals := signals w @ [\<lparr>cap = n, slots = []\<rparr>]\<rparr>, length (signals w))"

text \<open>
  Modelled from the spec: \<open>NewMultiSignal(n)\<close>, which Shutdown uses ("allocates a
  single Signal for the remaining N services"), is the same latch.
\<close>

definition NewMultiSignal :: "world \<Rightarrow> nat \<Rightarrow> world \<times> nat" where
  "NewMultiSignal w n = NewSignal w n"

text \<open>
  Modelled from the spec: \<open>Done(err)\<close> fills the next slot of the Signal with \<open>err\<close>
  ("each carrying an optional error").
\<close>

definition complete :: "Signal list \<Rightarrow> nat \<Rightarrow> error option \<Rightarrow> Signal list" where
  "complete ss s e = ss[s := (ss ! s)\<lparr>slots := slots (ss ! s) @ [e]\<rparr>]"

definition Done :: "world \<Rightarrow> nat \<Rightarrow> error option \<Rightarrow> world" where
  "Done w s e = emit (w\<lparr>signals := complete (signals w) s e\<rparr>) (EvDone s e)"

text \<open>The errors in the slots of a Signal, the nil completions left out.\<close>

definition slot_errors :: "Signal \<Rightarrow> error list" where
  "slot_errors sg = concat (map (\<lambda>e. case e of None \<Rightarrow> [] | Some x \<Rightarrow> [x]) (slots sg))"

text \<open>
  Modelled from the spec: \<open><-signal.Waiter()\<close> blocks (\<open>None\<close>) while fewer than
  \<open>cap\<close> completions have arrived, and then gives the aggregated error, "nil iff all
  N completions reported nil".
\<close>

definition Waiter :: "Signal \<Rightarrow> error option option" where
  "Waiter sg =
     (if length (slots sg) < cap sg then None
      else if slot_errors sg = [] then Some None
      else Some (Some (serviceErrors (slot_errors sg))))"

text \<open>
  Modelled from the spec: \<open>Errors(err)\<close> gives the per-component errors of an
  aggregate, no error for nil, and any other error by itself.
\<close>

fun Errors :: "error option \<Rightarrow> error list" where
  "Errors None = []"
| "Errors (Some (serviceErrors es)) = es"
| "Errors (Some e) = [e]"

subsection \<open>The per-service record\<close>

text \<open>
  The methods of \<open>runnerService\<close> that runner.go calls (\<open>newRunnerService\<close>,
  \<open>setState\<close>, \<open>setReady\<close>, \<open>starting\<close>, \<open>halting\<close>, \<open>State\<close>) and \<open>Ready\<close>, which the
  task calls, are not in runner.go.
\<close>

text \<open>
  Modelled from the spec: \<open>newRunnerService\<close>. "Allocate a fresh RunnerService ...
  attach the Signal as a waiter"; "Halted is the implicit initial state"; "Stage is
  latched to StageReady until the task signals readiness".
\<close>

definition newRunnerService :: "world \<Rightarrow> 64 word \<Rightarrow> nat \<Rightarrow> nat \<Rightarrow> world \<times> nat" where
  "newRunnerService w i svc rdy =
     (w\<lparr>heap := heap w @ [\<lparr>rs_id = i, service = svc, ready = Some rdy, stage = StageReady,
          state = Halted, waiters = [], rs_done = Some Open, readyCalled = False\<rparr>]\<rparr>,
      length (heap w))"

text \<open>
  Modelled from the spec: \<open>setState\<close> installs the state ("Transition state to Ended";
  the end path discards whatever the call returns) and "OnState fires on every
  transition".
\<close>

definition setState :: "world \<Rightarrow> nat \<Rightarrow> State \<Rightarrow> world" where
  "setState w p to =
     (let rs = heap w ! p
      in raiseOnState (upd_rs w p (\<lambda>r. r\<lparr>state := to\<rparr>)) (service rs) (state rs) to)"

text \<open>
  Modelled from the spec: \<open>setReady\<close> delivers the start result to the Start call
  that still waits for the service ("the Run error is delivered to any readiness
  waiters as the start error"), once.
\<close>

definition setReady :: "world \<Rightarrow> nat \<Rightarrow> error option \<Rightarrow> world" where
  "setReady w p err =
     (case ready (heap w ! p) of
        None \<Rightarrow> w
      | Some rdy \<Rightarrow> upd_rs (Done w rdy err) p (\<lambda>r. r\<lparr>ready := None\<rparr>))"

text \<open>
  Modelled from the spec: \<open>starting\<close> installs Starting ("install it in the registry
  under Starting"), which is allowed from Halted only ("any attempt to install a state
  not reachable from the current one is an error").
\<close>

definition starting :: "world \<Rightarrow> nat \<Rightarrow> Context option \<Rightarrow> world \<times> error option" where
  "starting w p ctx =
     (let rs = heap w ! p
      in if state rs = Halted then (setState w p Starting, None)
         else (w, Some (errState Halted Starting (state rs))))"

text \<open>
  Modelled from the spec: the error a Start call receives for a service that is
  halted before it is ready (the Start Signal is completed by "Halt being invoked
  before readiness"). The spec does not give its text.
\<close>

definition errHalted :: error where
  "errHalted = Errorf ''service halted''"

text \<open>
  Modelled from the spec: \<open>halting\<close>. "Transition the record to Halting, close its
  done channel, and register the Signal as a waiter"; "Halting a service that has not
  yet become ready is legal"; "done is closed at most once, by the first of: Halt
  request, or ended path", so a later Halt request of a service that is already
  Halting only registers its Signal. A record that is neither Starting, Started nor
  Halting cannot become Halting: the state error is returned, and the slot is
  completed since the caller in Halt relies on it ("halting will always call
  done.Done()").
\<close>

definition halting :: "world \<Rightarrow> nat \<Rightarrow> nat \<Rightarrow> world \<times> error option" where
  "halting w p dn =
     (let rs = heap w ! p
      in if state rs = Halting then
           (upd_rs w p (\<lambda>r. r\<lparr>waiters := waiters r @ [dn]\<rparr>), None)
         else if state rs = Starting \<or> state rs = Started then
           (let w1 = setReady w p (Some errHalted);
                w2 = setState w1 p Halting;
                w3 = upd_rs w2 p (\<lambda>r. r\<lparr>rs_done := Some Closed\<rparr>)
            in (upd_rs w3 p (\<lambda>r. r\<lparr>waiters := waiters r @ [dn]\<rparr>), None))
         else (Done w dn None, Some (errState Started Halting (state rs))))"

text \<open>
  Modelled from the spec: \<open>Ready\<close>, called by the task. "Returns nil on success;
  returns an error if the Runner is already trying to halt the service or if Ready
  was called out of order. Calling Ready transitions Starting to Started and releases
  any caller blocked in Start"; the stage "advances to StageRun".
\<close>

definition Ready :: "world \<Rightarrow> nat \<Rightarrow> world \<times> error option" where
  "Ready w p =
     (let rs = heap w ! p
      in if readyCalled rs \<or> state rs \<noteq> Starting then
           (w, Some (errState Starting Started (state rs)))
         else
           (let w1 = upd_rs w p (\<lambda>r. r\<lparr>readyCalled := True, stage := StageRun\<rparr>);
                w2 = setState w1 p Started
            in (setReady w2 p None, None)))"

subsection \<open>Enable, Suspend, the registry\<close>

definition errNotEnabled :: error where
  "errNotEnabled = Errorf ''runner is not enabled''"

definition errAlreadyRunning :: error where
  "errAlreadyRunning = Errorf ''service already running''"

definition Enable :: "world \<Rightarrow> world \<times> error option" where
  "Enable w = (Unlock ((Lock w)\<lparr>rn_state := RunnerEnabled\<rparr>), None)"

definition Suspend :: "world \<Rightarrow> world \<times> error option" where
  "Suspend w =
     (let w1 = Lock w
      in if rn_state w1 \<noteq> RunnerEnabled then (Unlock w1, Some errNotEnabled)
         else (Unlock (w1\<lparr>rn_state := RunnerSuspended\<rparr>), None))"

text \<open>\<open>rn.services[svc]\<close>: the key is the pointer; a nil pointer is never a key.\<close>

definition lookup :: "world \<Rightarrow> nat option \<Rightarrow> nat option" where
  "lookup w svc = (case svc of None \<Rightarrow> None | Some s \<Rightarrow> map_of (services w) s)"

text \<open>
  Modelled from the spec: the method \<open>rs.State()\<close> of a record, which runner.State
  calls, gives the "current State" of the record.
\<close>

definition rs_State :: "world \<Rightarrow> nat \<Rightarrow> State" where
  "rs_State w p = state (heap w ! p)"

subsection \<open>The end path\<close>

fun notify :: "world \<Rightarrow> nat list \<Rightarrow> error option \<Rightarrow> world" where
  "notify w [] herr = w"
| "notify w (s # ss) herr = notify (Done w s herr) ss herr"

definition ended :: "world \<Rightarrow> nat \<Rightarrow> error option \<Rightarrow> world \<times> error option" where
  "ended w rsvc err =
     (let w1 = Lock w;
          svc = service (heap w1 ! rsvc);
          w2 = emit (w1\<lparr>services := AList.delete svc (services w1)\<rparr>) (EvDelete svc);
          w3 = emit w2 (EvRsLock rsvc);
          w4 = setState w3 rsvc Ended;
          w5 = upd_rs w4 rsvc (\<lambda>r. r\<lparr>rs_done := None\<rparr>);
          w6 = (if stage (heap w5 ! rsvc) = StageReady then setReady w5 rsvc err else w5);
          herr = (if stage (heap w5 ! rsvc) = StageReady then None else err);
          w7 = raiseOnEnded w6 (stage (heap w6 ! rsvc)) (service (heap w6 ! rsvc)) err;
          w8 = upd_rs w7 rsvc (\<lambda>r. r\<lparr>readyCalled := False\<rparr>);
          w9 = notify w8 (waiters (heap w8 ! rsvc)) herr;
          w10 = upd_rs w9 rsvc (\<lambda>r. r\<lparr>waiters := []\<rparr>);
          w11 = emit w10 (EvRsUnlock rsvc)
      in (Unlock w11, None))"

subsection \<open>What workers do while a caller is blocked\<close>

text \<open>
  A worker runs \<open>svc.Runnable.Run(rs)\<close> and then \<open>rn.ended(rs, rerr)\<close>; the task may
  call \<open>Ready\<close> on its record before it returns. An action names the record by its
  pointer. The worker of a record is started in the critical section that makes the
  record Starting and calls \<open>ended\<close> once, which makes it Ended: a worker runs while
  its record is Starting, Started or Halting, and an action on any other record, or
  on a pointer outside the heap, is no step.
\<close>

datatype action = ActReady nat | ActEnded nat "error option"

definition live :: "State \<Rightarrow> bool" where
  "live s = (s = Starting \<or> s = Started \<or> s = Halting)"

definition running :: "world \<Rightarrow> nat \<Rightarrow> bool" where
  "running w p = (p < length (heap w) \<and> live (state (heap w ! p)))"

definition step :: "world \<Rightarrow> action \<Rightarrow> world" where
  "step w a =
     (case a of
        ActReady p \<Rightarrow> if running w p then fst (Ready w p) else w
      | ActEnded p err \<Rightarrow> if running w p then fst (ended w p err) else w)"

fun run :: "world \<Rightarrow> action list \<Rightarrow> world" where
  "run w [] = w"
| "run w (a # as) = run (step w a) as"

subsection \<open>State\<close>

text \<open>
  \<open>State\<close> looks the descriptor up under the registry lock, releases the lock, and
  only then reads the state of the record it found, with \<open>rs.State()\<close>. The workers
  may take steps (\<open>acts\<close>) between the release and the read; the call returns the
  world they have left and the state it has read.
\<close>

definition State :: "world \<Rightarrow> nat option \<Rightarrow> action list \<Rightarrow> world \<times> State" where
  "State w svc acts =
     (let w1 = Lock w;
          rs = lookup w1 svc;
          w2 = Unlock w1;
          w3 = run w2 acts
      in (w3, case rs of Some p \<Rightarrow> rs_State w3 p | None \<Rightarrow> Halted))"

subsection \<open>The select\<close>

text \<open>
  \<open>select { case err := <-signal.Waiter(): ...; case <-ctxDone: return ctx.Err() }\<close>.
  The caller passes the context (nil is \<open>None\<close>) as it is when the select is
  decided; a branch that cannot be taken gives \<open>None\<close>.
\<close>

datatype branch = ViaSignal | ViaCtx

definition ctxDone :: "Context option \<Rightarrow> error option" where
  "ctxDone ctx = (case ctx of None \<Rightarrow> None | Some c \<Rightarrow> c)"

subsection \<open>Start\<close>

definition Start_one :: "world \<Rightarrow> Context option \<Rightarrow> nat \<Rightarrow> nat option \<Rightarrow> world" where
  "Start_one w ctx rdy svc =
     (case svc of
        None \<Rightarrow> Done w rdy None
      | Some s \<Rightarrow>
          if Runnable (descriptors w ! s) = None then Done w rdy None
          else (case map_of (services w) s of
                  Some rs \<Rightarrow> Done w rdy (Some errAlreadyRunning)
                | None \<Rightarrow>
                    (let w1 = w\<lparr>nextID := nextID w + 1\<rparr>;
                         (w2, rs) = newRunnerService w1 (nextID w1) s rdy;
                         w3 = w2\<lparr>services := AList.update s rs (services w2)\<rparr>
                     in case starting w3 rs ctx of
                          (w4, Some err) \<Rightarrow> Done w4 rdy (Some err)
                        | (w4, None) \<Rightarrow> emit w4 (EvGoRun rs))))"

fun Start_loop :: "world \<Rightarrow> Context option \<Rightarrow> nat \<Rightarrow> nat option list \<Rightarrow> world" where
  "Start_loop w ctx rdy [] = w"
| "Start_loop w ctx rdy (svc # rest) = Start_loop (Start_one w ctx rdy svc) ctx rdy rest"

text \<open>
  The critical section of Start, for a non-empty list: the error of a runner that
  is not enabled, or the Signal the caller then waits on.
\<close>

definition Start_locked :: "world \<Rightarrow> Context option \<Rightarrow> nat option list \<Rightarrow> world \<times> (error + nat)" where
  "Start_locked w ctx svcs =
     (let w1 = Lock w
      in if rn_state w1 \<noteq> RunnerEnabled then (Unlock w1, Inl errNotEnabled)
         else (let (w2, rdy) = NewSignal w1 (length svcs);
                   w3 = Start_loop w2 ctx rdy svcs
               in (Unlock w3, Inr rdy)))"

text \<open>
  The result of the Signal branch: \<open>errs = append(errs, Errors(err)...)\<close>, an
  aggregate if \<open>errs\<close> is not empty.
\<close>

definition aggregate :: "error list \<Rightarrow> error option \<Rightarrow> error option" where
  "aggregate errs err =
     (let errs' = errs @ Errors err
      in if length errs' > 0 then Some (serviceErrors errs') else None)"

definition select :: "world \<Rightarrow> nat \<Rightarrow> error list \<Rightarrow> Context option \<Rightarrow> branch \<Rightarrow> error option option" where
  "select w sg errs ctx br =
     (case br of
        ViaSignal \<Rightarrow> (case Waiter (signals w ! sg) of
                        None \<Rightarrow> None
                      | Some err \<Rightarrow> Some (aggregate errs err))
      | ViaCtx \<Rightarrow> (case ctxDone ctx of None \<Rightarrow> None | Some e \<Rightarrow> Some (Some e)))"

text \<open>
  A whole call of Start: the critical section, the steps \<open>acts\<close> of the workers while
  the caller is blocked, and the select decided by \<open>br\<close>. \<open>None\<close>: the branch cannot
  be taken after these steps.
\<close>

definition Start :: "world \<Rightarrow> Context option \<Rightarrow> nat option list \<Rightarrow> action list \<Rightarrow> branch
    \<Rightarrow> (world \<times> error option) option" where
  "Start w ctx svcs acts br =
     (if length svcs = 0 then Some (w, None)
      else (case Start_locked w ctx svcs of
              (w1, Inl e) \<Rightarrow> Some (w1, Some e)
            | (w1, Inr rdy) \<Rightarrow>
                (let w2 = run w1 acts
                 in case select w2 rdy [] ctx br of
                      None \<Rightarrow> None
                    | Some r \<Rightarrow> Some (w2, r))))"

subsection \<open>Halt\<close>

definition Halt_one :: "world \<times> error list \<Rightarrow> nat \<Rightarrow> nat option \<Rightarrow> world \<times> error list" where
  "Halt_one we dn svc =
     (let (w, errs) = we
      in case lookup w svc of
           None \<Rightarrow> (Done w dn None, errs)
         | Some rs \<Rightarrow> (case halting w rs dn of
                        (w1, Some err) \<Rightarrow> (w1, errs @ [err])
                      | (w1, None) \<Rightarrow> (w1, errs)))"

fun Halt_loop :: "world \<times> error list \<Rightarrow> nat \<Rightarrow> nat option list \<Rightarrow> world \<times> error list" where
  "Halt_loop we dn [] = we"
| "Halt_loop we dn (svc # rest) = Halt_loop (Halt_one we dn svc) dn rest"

text \<open>
  The part of Halt before the select, for a non-empty list: the world, the Signal
  and the errors \<open>errs\<close> that \<open>halting\<close> returned.
\<close>

definition Halt_locked :: "world \<Rightarrow> nat option list \<Rightarrow> world \<times> nat \<times> error list" where
  "Halt_locked w svcs =
     (let (w1, dn) = NewSignal w (length svcs);
          w2 = Lock w1;
          (w3, errs) = Halt_loop (w2, []) dn svcs
      in (Unlock w3, dn, errs))"

definition Halt :: "world \<Rightarrow> Context option \<Rightarrow> nat option list \<Rightarrow> action list \<Rightarrow> branch
    \<Rightarrow> (world \<times> error option) option" where
  "Halt w ctx svcs acts br =
     (if length svcs = 0 then Some (w, None)
      else (let (w1, dn, errs) = Halt_locked w svcs;
                w2 = run w1 acts
            in case select w2 dn errs ctx br of
                 None \<Rightarrow> None
               | Some r \<Rightarrow> Some (w2, r)))"

subsection \<open>Shutdown\<close>

text \<open>
  \<open>for _, rs := range rn.services\<close>: Go fixes no order; the model takes the order of
  the association list. \<open>Inl err\<close> is \<open>panic(err)\<close>.
\<close>

fun Shutdown_loop :: "world \<Rightarrow> nat \<Rightarrow> nat list \<Rightarrow> error + world" where
  "Shutdown_loop w sg [] = Inr w"
| "Shutdown_loop w sg (rs # rest) =
     (case halting w rs sg of
        (w1, Some err) \<Rightarrow> Inl err
      | (w1, None) \<Rightarrow> Shutdown_loop w1 sg rest)"

definition Shutdown_locked :: "world \<Rightarrow> error + (world \<times> (error + nat))" where
  "Shutdown_locked w =
     (let w1 = Lock w
      in if rn_state w1 \<noteq> RunnerEnabled \<and> rn_state w1 \<noteq> RunnerSuspended then
           Inr (Unlock w1, Inl errNotEnabled)
         else (let (w2, sg) = NewMultiSignal w1 (length (services w1));
                   w3 = w2\<lparr>rn_state := RunnerShutdown\<rparr>
               in case Shutdown_loop w3 sg (map snd (services w3)) of
                    Inl err \<Rightarrow> Inl err
                  | Inr w4 \<Rightarrow> Inr (Unlock w4, Inr sg)))"

text \<open>
  The select of Shutdown returns the error of the Signal as it is: there is no
  \<open>errs\<close> to join it with.
\<close>

definition Shutdown :: "world \<Rightarrow> Context option \<Rightarrow> action list \<Rightarrow> branch
    \<Rightarrow> (error + world \<times> error option) option" where
  "Shutdown w ctx acts br =
     (case Shutdown_locked w of
        Inl err \<Rightarrow> Some (Inl err)
      | Inr (w1, Inl e) \<Rightarrow> Some (Inr (w1, Some e))
      | Inr (w1, Inr sg) \<Rightarrow>
          (let w2 = run w1 acts
           in case br of
                ViaSignal \<Rightarrow> (case Waiter (signals w2 ! sg) of
                                None \<Rightarrow> None
                              | Some err \<Rightarrow> Some (Inr (w2, err)))
              | ViaCtx \<Rightarrow> (case ctxDone ctx of
                             None \<Rightarrow> None
                           | Some e \<Rightarrow> Some (Inr (w2, Some e)))))"

subsection \<open>Well-formed worlds\<close>

text \<open>
  The registry maps each descriptor to at most one record, which lies in the heap
  and belongs to that descriptor. Nothing is asked of the fields of the descriptors,
  which are the caller's.
\<close>

definition registry_ok :: "world \<Rightarrow> bool" where
  "registry_ok w =
     (distinct (map fst (services w)) \<and>
      (\<forall>(D, p) \<in> set (services w). p < length (heap w) \<and> service (heap w ! p) = D))"

definition registered :: "world \<Rightarrow> nat \<Rightarrow> bool" where
  "registered w p = (p \<in> snd ` set (services w))"

text \<open>
  The registry invariant: a record is in the registry iff it is Starting, Started or
  Halting.
\<close>

definition registry_inv :: "world \<Rightarrow> bool" where
  "registry_inv w =
     (\<forall>p \<in> {..<length (heap w)}. registered w p = live (state (heap w ! p)))"

text \<open>Every Signal a record refers to has been allocated.\<close>

definition signals_ok :: "world \<Rightarrow> bool" where
  "signals_ok w =
     (\<forall>p \<in> {..<length (heap w)}.
        (\<forall>s \<in> set (waiters (heap w ! p)). s < length (signals w)) \<and>
        (\<forall>s \<in> set_option (ready (heap w ! p)). s < length (signals w)))"

definition well_formed :: "world \<Rightarrow> bool" where
  "well_formed w = (registry_ok w \<and> registry_inv w \<and> signals_ok w)"

subsection \<open>Reading the trace\<close>

text \<open>The events a critical section added to the trace.\<close>

definition new_events :: "world \<Rightarrow> world \<Rightarrow> event list" where
  "new_events w w' = drop (length (trace w)) (trace w')"

text \<open>
  For each notification of a Signal (\<open>EvDone\<close>) in a list of events, whether the
  registry lock is held at that moment; \<open>h\<close> says whether it is held at the start.
\<close>

fun notify_locks :: "bool \<Rightarrow> event list \<Rightarrow> bool list" where
  "notify_locks h [] = []"
| "notify_locks h (EvLock # es) = notify_locks True es"
| "notify_locks h (EvUnlock # es) = notify_locks False es"
| "notify_locks h (EvDone s e # es) = h # notify_locks h es"
| "notify_locks h (ev # es) = notify_locks h es"

text \<open>The notifications among a list of events, in order.\<close>

fun notifications :: "event list \<Rightarrow> (nat \<times> error option) list" where
  "notifications [] = []"
| "notifications (EvDone s e # es) = (s, e) # notifications es"
| "notifications (ev # es) = notifications es"

text \<open>The callbacks that \<open>raiseOnState\<close> and \<open>raiseOnEnded\<close> start, as events.\<close>

definition onState_events :: "world \<Rightarrow> nat \<Rightarrow> State \<Rightarrow> State \<Rightarrow> event list" where
  "onState_events w svc a b =
     (if onState w then [EvGoOnState svc a b] else []) @
     (if OnState (descriptors w ! svc) then [EvGoOnState svc a b] else [])"

definition onEnded_events :: "world \<Rightarrow> Stage \<Rightarrow> nat \<Rightarrow> error option \<Rightarrow> event list" where
  "onEnded_events w stg svc err =
     (if onEnd w then [EvGoOnEnd stg svc err] else []) @
     (if OnEnd (descriptors w ! svc) then [EvGoOnEnd stg svc err] else [])"

text \<open>
  \<open>quiet w w'\<close>: the world \<open>w'\<close> continues the trace of \<open>w\<close> with events that neither
  take nor release the registry lock.
\<close>

definition quiet :: "world \<Rightarrow> world \<Rightarrow> bool" where
  "quiet w w' =
     (trace w' = trace w @ new_events w w' \<and>
      EvLock \<notin> set (new_events w w') \<and> EvUnlock \<notin> set (new_events w w'))"

subsection \<open>Records and the Signals they refer to\<close>

text \<open>The record an action is about, and whether any record refers to a Signal.\<close>

fun target :: "action \<Rightarrow> nat" where
  "target (ActReady p) = p"
| "target (ActEnded p err) = p"

definition refers :: "runnerService \<Rightarrow> nat \<Rightarrow> bool" where
  "refers rs s = (s \<in> set (waiters rs) \<or> ready rs = Some s)"

definition referenced :: "world \<Rightarrow> nat \<Rightarrow> bool" where
  "referenced w s = (\<exists>p \<in> {..<length (heap w)}. refers (heap w ! p) s)"

text \<open>
  \<open>launched w D p\<close>: the descriptor \<open>D\<close> is registered with record \<open>p\<close>, which is
  Starting and whose done channel is open.
\<close>

definition launched :: "world \<Rightarrow> nat \<Rightarrow> nat \<Rightarrow> bool" where
  "launched w D p =
     (map_of (services w) D = Some p \<and> p < length (heap w) \<and>
      state (heap w ! p) = Starting \<and> rs_done (heap w ! p) = Some Open)"

text \<open>
  \<open>halt_pending w D p dn\<close>: a Halt call for the descriptor \<open>D\<close> alone waits on its
  Signal \<open>dn\<close>: \<open>D\<close> is registered with record \<open>p\<close>, nothing has completed the
  Signal, and no other record refers to it.
\<close>

definition halt_pending :: "world \<Rightarrow> nat \<Rightarrow> nat \<Rightarrow> nat \<Rightarrow> bool" where
  "halt_pending w D p dn =
     (map_of (services w) D = Some p \<and> signals w ! dn = \<lparr>cap = 1, slots = []\<rparr> \<and>
      (\<forall>q \<in> {..<length (heap w)}. q \<noteq> p \<longrightarrow> \<not> refers (heap w ! q) dn) \<and>
      ready (heap w ! p) \<noteq> Some dn)"

subsection \<open>Worlds for the examples\<close>

text \<open>
  A new runner and two descriptors of the caller, \<open>svcA\<close> and \<open>svcB\<close>, each with a
  Runnable and no callbacks.
\<close>

definition svcA :: nat where
  "svcA = 0"

definition svcB :: nat where
  "svcB = 1"

definition two_descriptors :: "Service list" where
  "two_descriptors = [\<lparr>Runnable = Some 1, OnEnd = False, OnState = False\<rparr>,
                      \<lparr>Runnable = Some 2, OnEnd = False, OnState = False\<rparr>]"

definition world_new :: world where
  "world_new = NewRunner\<lparr>descriptors := two_descriptors\<rparr>"

text \<open>
  \<open>svcA\<close> started on a new runner and its worker running (record 0, waited for by
  Signal 0); then ready; then asked to halt (Signal 1); then its worker has returned
  nil.
\<close>

definition world_starting :: world where
  "world_starting = fst (Start_locked world_new None [Some svcA])"

definition world_started :: world where
  "world_started = run world_starting [ActReady 0]"

definition world_halting :: world where
  "world_halting = fst (Halt_locked world_started [Some svcA])"

definition world_ended :: world where
  "world_ended = fst (ended world_halting 0 None)"

text \<open>
  \<open>svcA\<close> asked to halt before it is ready: the Start call has its error already,
  Signal 1 of the Halt call waits, the stage is still StageReady.
\<close>

definition world_halted_early :: world where
  "world_halted_early = fst (Halt_locked world_starting [Some svcA])"

text \<open>The runner suspended while \<open>svcA\<close> is running.\<close>

definition world_suspended :: world where
  "world_suspended = fst (Suspend world_started)"

text \<open>\<open>svcA\<close> is running and the caller has since set its Runnable to nil.\<close>

definition world_no_Runnable :: world where
  "world_no_Runnable = world_started\<lparr>descriptors :=
     (descriptors world_started)[svcA := (descriptors world_started ! svcA)\<lparr>Runnable := None\<rparr>]\<rparr>"

text \<open>
  Two services started together on a new runner: \<open>svcA\<close> becomes ready, the worker of
  \<open>svcB\<close> returns an error before it is ready.
\<close>

definition world_two :: world where
  "world_two = run (fst (Start_locked world_new None [Some svcA, Some svcB]))
                 [ActReady 0, ActEnded 1 (Some (Errorf ''boom''))]"

text \<open>A runner after \<open>Shutdown\<close> has returned: the new runner of \<open>world_new\<close>, shut down.\<close>

definition shut_down :: world where
  "shut_down = (case Shutdown world_new None [] ViaSignal of
                  Some (Inr (w, r)) \<Rightarrow> w | _ \<Rightarrow> world_new)"

section \<open>Lemmas\<close>

subsection \<open>What each primitive leaves alone\<close>

lemma emit_fields [simp]:
  "descriptors (emit w e) = descriptors w"
  "services (emit w e) = services w" "rn_state (emit w e) = rn_state w"
  "heap (emit w e) = heap w" "signals (emit w e) = signals w"
  "nextID (emit w e) = nextID w" "onEnd (emit w e) = onEnd w"
  "onState (emit w e) = onState w" "onError (emit w e) = onError w"
  "trace (emit w e) = trace w @ [e]"
  by (simp_all add: emit_def)

lemma Lock_fields [simp]:
  "descriptors (Lock w) = descriptors w"
  "services (Lock w) = services w" "rn_state (Lock w) = rn_state w"
  "heap (Lock w) = heap w" "signals (Lock w) = signals w"
  "nextID (Lock w) = nextID w" "onEnd (Lock w) = onEnd w"
  "onState (Lock w) = onState w" "onError (Lock w) = onError w"
  "trace (Lock w) = trace w @ [EvLock]"
  by (simp_all add: Lock_def)

lemma Unlock_fields [simp]:
  "descriptors (Unlock w) = descriptors w"
  "services (Unlock w) = services w" "rn_state (Unlock w) = rn_state w"
  "heap (Unlock w) = heap w" "signals (Unlock w) = signals w"
  "nextID (Unlock w) = nextID w" "onEnd (Unlock w) = onEnd w"
  "onState (Unlock w) = onState w" "onError (Unlock w) = onError w"
  "trace (Unlock w) = trace w @ [EvUnlock]"
  by (simp_all add: Unlock_def)

lemma upd_rs_fields [simp]:
  "descriptors (upd_rs w p f) = descriptors w"
  "services (upd_rs w p f) = services w" "rn_state (upd_rs w p f) = rn_state w"
  "heap (upd_rs w p f) = (heap w)[p := f (heap w ! p)]" "signals (upd_rs w p f) = signals w"
  "nextID (upd_rs w p f) = nextID w" "onEnd (upd_rs w p f) = onEnd w"
  "onState (upd_rs w p f) = onState w" "onError (upd_rs w p f) = onError w"
  "trace (upd_rs w p f) = trace w"
  by (simp_all add: upd_rs_def)

lemma raiseOnState_fields [simp]:
  "descriptors (raiseOnState w svc a b) = descriptors w"
  "services (raiseOnState w svc a b) = services w" "rn_state (raiseOnState w svc a b) = rn_state w"
  "heap (raiseOnState w svc a b) = heap w" "signals (raiseOnState w svc a b) = signals w"
  "nextID (raiseOnState w svc a b) = nextID w" "onEnd (raiseOnState w svc a b) = onEnd w"
  "onState (raiseOnState w svc a b) = onState w" "onError (raiseOnState w svc a b) = onError w"
  by (simp_all add: raiseOnState_def Let_def)

lemma raiseOnEnded_fields [simp]:
  "descriptors (raiseOnEnded w stg svc err) = descriptors w"
  "services (raiseOnEnded w stg svc err) = services w"
  "rn_state (raiseOnEnded w stg svc err) = rn_state w"
  "heap (raiseOnEnded w stg svc err) = heap w" "signals (raiseOnEnded w stg svc err) = signals w"
  "nextID (raiseOnEnded w stg svc err) = nextID w" "onEnd (raiseOnEnded w stg svc err) = onEnd w"
  "onState (raiseOnEnded w stg svc err) = onState w"
  "onError (raiseOnEnded w stg svc err) = onError w"
  by (simp_all add: raiseOnEnded_def Let_def)

lemma Done_fields [simp]:
  "descriptors (Done w s e) = descriptors w"
  "services (Done w s e) = services w" "rn_state (Done w s e) = rn_state w"
  "heap (Done w s e) = heap w" "signals (Done w s e) = complete (signals w) s e"
  "nextID (Done w s e) = nextID w" "onEnd (Done w s e) = onEnd w"
  "onState (Done w s e) = onState w" "onError (Done w s e) = onError w"
  "trace (Done w s e) = trace w @ [EvDone s e]"
  by (simp_all add: Done_def)

lemma length_complete [simp]: "length (complete ss s e) = length ss"
  by (simp add: complete_def)

lemma setState_fields [simp]:
  "descriptors (setState w p t) = descriptors w"
  "services (setState w p t) = services w" "rn_state (setState w p t) = rn_state w"
  "heap (setState w p t) = (heap w)[p := (heap w ! p)\<lparr>state := t\<rparr>]"
  "signals (setState w p t) = signals w" "nextID (setState w p t) = nextID w"
  "onEnd (setState w p t) = onEnd w" "onState (setState w p t) = onState w"
  "onError (setState w p t) = onError w"
  by (simp_all add: setState_def Let_def)

lemma setReady_fields [simp]:
  "descriptors (setReady w p e) = descriptors w"
  "services (setReady w p e) = services w" "rn_state (setReady w p e) = rn_state w"
  "heap (setReady w p e) = (heap w)[p := (heap w ! p)\<lparr>ready := None\<rparr>]"
  "nextID (setReady w p e) = nextID w" "onEnd (setReady w p e) = onEnd w"
  "onState (setReady w p e) = onState w" "onError (setReady w p e) = onError w"
proof -
  have same: "ready (heap w ! p) = None \<Longrightarrow> (heap w ! p)\<lparr>ready := None\<rparr> = heap w ! p"
    by (cases "heap w ! p") simp
  show "heap (setReady w p e) = (heap w)[p := (heap w ! p)\<lparr>ready := None\<rparr>]"
    by (simp add: setReady_def same split: option.splits)
qed (simp_all add: setReady_def split: option.splits)

lemma setReady_signals:
  "signals (setReady w p e) =
     (case ready (heap w ! p) of None \<Rightarrow> signals w | Some r \<Rightarrow> complete (signals w) r e)"
  by (simp add: setReady_def split: option.splits)

lemma notify_fields [simp]:
  "descriptors (notify w ss e) = descriptors w"
  "services (notify w ss e) = services w" "rn_state (notify w ss e) = rn_state w"
  "heap (notify w ss e) = heap w" "nextID (notify w ss e) = nextID w"
  "onEnd (notify w ss e) = onEnd w" "onState (notify w ss e) = onState w"
  "onError (notify w ss e) = onError w"
  by (induction ss arbitrary: w) simp_all

lemma notify_signals:
  "signals (notify w ss e) = foldl (\<lambda>sgs s. complete sgs s e) (signals w) ss"
  by (induction ss arbitrary: w) simp_all

lemma notify_trace: "trace (notify w ss e) = trace w @ map (\<lambda>s. EvDone s e) ss"
  by (induction ss arbitrary: w) simp_all

subsection \<open>The RunnerState\<close>

lemma halting_rn_state [simp]: "rn_state (fst (halting w p dn)) = rn_state w"
  by (simp add: halting_def Let_def)

lemma Ready_rn_state [simp]: "rn_state (fst (Ready w p)) = rn_state w"
  by (simp add: Ready_def Let_def)

lemma ended_rn_state [simp]: "rn_state (fst (ended w p e)) = rn_state w"
  by (simp add: ended_def Let_def)

lemma step_rn_state [simp]: "rn_state (step w a) = rn_state w"
  by (simp add: step_def split: action.splits)

lemma run_rn_state [simp]: "rn_state (run w acts) = rn_state w"
  by (induction acts arbitrary: w) simp_all

lemma Shutdown_loop_rn_state:
  "Shutdown_loop w sg ps = Inr w' \<Longrightarrow> rn_state w' = rn_state w"
proof (induction ps arbitrary: w)
  case Nil
  then show ?case by simp
next
  case (Cons p ps)
  obtain w1 r where h: "halting w p sg = (w1, r)" by (cases "halting w p sg")
  with Cons.prems have "r = None" and "Shutdown_loop w1 sg ps = Inr w'"
    by (auto split: option.splits)
  with Cons.IH have "rn_state w' = rn_state w1" by simp
  moreover have "rn_state w1 = rn_state w"
    using halting_rn_state [of w p sg] h by simp
  ultimately show ?case by simp
qed

lemma Shutdown_locked_rn_state:
  assumes "Shutdown_locked w = Inr (w', r)"
  shows "rn_state w' = RunnerShutdown"
proof (cases "rn_state w = RunnerEnabled \<or> rn_state w = RunnerSuspended")
  case False
  then have "rn_state w = RunnerShutdown" by (cases "rn_state w") simp_all
  with assms show ?thesis by (auto simp: Shutdown_locked_def)
next
  case True
  let ?w3 = "(fst (NewMultiSignal (Lock w) (length (services w))))\<lparr>rn_state := RunnerShutdown\<rparr>"
  let ?sg = "snd (NewMultiSignal (Lock w) (length (services w)))"
  from True assms obtain w4 where
    loop: "Shutdown_loop ?w3 ?sg (map snd (services ?w3)) = Inr w4" and w': "w' = Unlock w4"
    by (auto simp: Shutdown_locked_def Let_def split_beta split: sum.splits)
  from Shutdown_loop_rn_state [OF loop] w' show ?thesis by simp
qed

lemma Start_not_enabled:
  assumes "rn_state w \<noteq> RunnerEnabled" and "svcs \<noteq> []"
  shows "Start w ctx svcs acts br = Some (Unlock (Lock w), Some errNotEnabled)"
  using assms by (simp add: Start_def Start_locked_def)

lemma Shutdown_not_enabled:
  assumes "rn_state w = RunnerShutdown"
  shows "Shutdown w ctx acts br = Some (Inr (Unlock (Lock w), Some errNotEnabled))"
  using assms by (simp add: Shutdown_def Shutdown_locked_def)

lemma Shutdown_returns_shut_down:
  assumes "Shutdown w ctx acts br = Some (Inr (w', r))"
  shows "rn_state w' = RunnerShutdown"
proof (cases "Shutdown_locked w")
  case (Inl err)
  with assms show ?thesis by (simp add: Shutdown_def)
next
  case (Inr x)
  obtain w1 y where x: "x = (w1, y)" by (cases x)
  from Shutdown_locked_rn_state Inr x have w1: "rn_state w1 = RunnerShutdown" by simp
  show ?thesis
  proof (cases y)
    case (Inl e)
    with assms Inr x w1 show ?thesis by (auto simp: Shutdown_def)
  next
    case (Inr sg)
    with assms \<open>Shutdown_locked w = Inr x\<close> x have "w' = run w1 acts"
      by (auto simp: Shutdown_def Let_def split: branch.splits option.splits)
    with w1 show ?thesis by simp
  qed
qed

lemma NewSignal_fields [simp]:
  "descriptors (fst (NewSignal w n)) = descriptors w"
  "services (fst (NewSignal w n)) = services w" "rn_state (fst (NewSignal w n)) = rn_state w"
  "heap (fst (NewSignal w n)) = heap w"
  "signals (fst (NewSignal w n)) = signals w @ [\<lparr>cap = n, slots = []\<rparr>]"
  "nextID (fst (NewSignal w n)) = nextID w" "trace (fst (NewSignal w n)) = trace w"
  "snd (NewSignal w n) = length (signals w)"
  by (simp_all add: NewSignal_def)

lemma starting_rn_state [simp]: "rn_state (fst (starting w p ctx)) = rn_state w"
  by (simp add: starting_def Let_def)

lemma Start_one_rn_state [simp]: "rn_state (Start_one w ctx rdy svc) = rn_state w"
proof -
  have "rn_state (case starting v p ctx of (w4, Some err) \<Rightarrow> Done w4 rdy (Some err)
                    | (w4, None) \<Rightarrow> emit w4 (EvGoRun p)) = rn_state v" for v p
    using starting_rn_state [of v p ctx]
    by (cases "starting v p ctx") (auto split: option.splits)
  then show ?thesis
    by (simp add: Start_one_def newRunnerService_def Let_def split: option.splits)
qed

lemma Start_loop_rn_state [simp]: "rn_state (Start_loop w ctx rdy svcs) = rn_state w"
  by (induction svcs arbitrary: w) simp_all

lemma Start_locked_rn_state [simp]: "rn_state (fst (Start_locked w ctx svcs)) = rn_state w"
  by (simp add: Start_locked_def Let_def split_beta)

lemma Halt_one_rn_state [simp]: "rn_state (fst (Halt_one we dn svc)) = rn_state (fst we)"
proof (cases we)
  case (Pair w errs)
  show ?thesis
  proof (cases "lookup w svc")
    case None
    with Pair show ?thesis by (simp add: Halt_one_def)
  next
    case (Some p)
    with Pair halting_rn_state [of w p dn] show ?thesis
      by (cases "halting w p dn") (auto simp: Halt_one_def split: option.splits)
  qed
qed

lemma Halt_loop_rn_state [simp]: "rn_state (fst (Halt_loop we dn svcs)) = rn_state (fst we)"
  by (induction svcs arbitrary: we) simp_all

lemma Halt_locked_rn_state [simp]: "rn_state (fst (Halt_locked w svcs)) = rn_state w"
  by (simp add: Halt_locked_def Let_def split_beta)

lemma Start_rn_state:
  "Start w ctx svcs acts br = Some (w', r) \<Longrightarrow> rn_state w' = rn_state w"
proof -
  assume a: "Start w ctx svcs acts br = Some (w', r)"
  show ?thesis
  proof (cases "svcs = []")
    case True
    with a show ?thesis by (simp add: Start_def)
  next
    case False
    obtain w1 x where sl: "Start_locked w ctx svcs = (w1, x)" by (cases "Start_locked w ctx svcs")
    with Start_locked_rn_state [of w ctx svcs] have w1: "rn_state w1 = rn_state w" by simp
    from a False sl have "w' = w1 \<or> w' = run w1 acts"
      by (cases x) (auto simp: Start_def Let_def split: option.splits)
    with w1 show ?thesis by auto
  qed
qed

lemma Halt_rn_state:
  "Halt w ctx svcs acts br = Some (w', r) \<Longrightarrow> rn_state w' = rn_state w"
proof -
  assume a: "Halt w ctx svcs acts br = Some (w', r)"
  show ?thesis
  proof (cases "svcs = []")
    case True
    with a show ?thesis by (simp add: Halt_def)
  next
    case False
    with a have "w' = run (fst (Halt_locked w svcs)) acts"
      by (auto simp: Halt_def Let_def split_beta split: option.splits)
    then show ?thesis by simp
  qed
qed

lemma Suspend_shut_down: "rn_state w = RunnerShutdown \<Longrightarrow>
   Suspend w = (Unlock (Lock w), Some errNotEnabled)"
  by (simp add: Suspend_def Let_def)

lemma Enable_enabled: "rn_state (fst (Enable w)) = RunnerEnabled \<and> snd (Enable w) = None"
  by (simp add: Enable_def)

lemma Start_locked_enabled:
  "rn_state w = RunnerEnabled \<Longrightarrow> snd (Start_locked w ctx svcs) = Inr (length (signals w))"
  by (simp add: Start_locked_def Let_def split_beta)

lemma Shutdown_new_example:
  "Shutdown world_new None [] ViaSignal = Some (Inr (shut_down, None))"
  by (simp add: shut_down_def Shutdown_def Shutdown_locked_def world_new_def NewRunner_def NewMultiSignal_def
      NewSignal_def Waiter_def slot_errors_def Lock_def Unlock_def emit_def)

subsection \<open>The descriptors\<close>

text \<open>The runner reads the descriptors and never writes to them.\<close>

lemma halting_descriptors [simp]: "descriptors (fst (halting w p dn)) = descriptors w"
  by (simp add: halting_def Let_def)

lemma Ready_descriptors [simp]: "descriptors (fst (Ready w p)) = descriptors w"
  by (simp add: Ready_def Let_def)

lemma ended_descriptors [simp]: "descriptors (fst (ended w p e)) = descriptors w"
  by (simp add: ended_def Let_def)

lemma step_descriptors [simp]: "descriptors (step w a) = descriptors w"
  by (simp add: step_def split: action.splits)

lemma run_descriptors [simp]: "descriptors (run w acts) = descriptors w"
  by (induction acts arbitrary: w) simp_all

lemma starting_descriptors [simp]: "descriptors (fst (starting w p ctx)) = descriptors w"
  by (simp add: starting_def Let_def)

lemma Start_one_descriptors [simp]: "descriptors (Start_one w ctx rdy svc) = descriptors w"
proof -
  have "descriptors (case starting v p ctx of (w4, Some err) \<Rightarrow> Done w4 rdy (Some err)
                    | (w4, None) \<Rightarrow> emit w4 (EvGoRun p)) = descriptors v" for v p
    using starting_descriptors [of v p ctx]
    by (cases "starting v p ctx") (auto split: option.splits)
  then show ?thesis
    by (simp add: Start_one_def newRunnerService_def Let_def split: option.splits)
qed

lemma Start_loop_descriptors [simp]: "descriptors (Start_loop w ctx rdy svcs) = descriptors w"
  by (induction svcs arbitrary: w) simp_all

lemma Start_locked_descriptors [simp]:
  "descriptors (fst (Start_locked w ctx svcs)) = descriptors w"
  by (simp add: Start_locked_def Let_def split_beta)

lemma Halt_one_descriptors [simp]:
  "descriptors (fst (Halt_one we dn svc)) = descriptors (fst we)"
proof (cases we)
  case (Pair w errs)
  show ?thesis
  proof (cases "lookup w svc")
    case None
    with Pair show ?thesis by (simp add: Halt_one_def)
  next
    case (Some p)
    with Pair halting_descriptors [of w p dn] show ?thesis
      by (cases "halting w p dn") (auto simp: Halt_one_def split: option.splits)
  qed
qed

lemma Halt_loop_descriptors [simp]:
  "descriptors (fst (Halt_loop we dn svcs)) = descriptors (fst we)"
  by (induction svcs arbitrary: we) simp_all

lemma Halt_locked_descriptors [simp]:
  "descriptors (fst (Halt_locked w svcs)) = descriptors w"
  by (simp add: Halt_locked_def Let_def split_beta)

subsection \<open>Well-formed worlds stay well-formed\<close>

lemma wf_frame:
  assumes "services w' = services w" and "heap w' = heap w"
    and "length (signals w') = length (signals w)"
  shows "well_formed w' = well_formed w"
  using assms by (simp add: well_formed_def registry_ok_def registry_inv_def signals_ok_def registered_def)

lemma wf_heap_update:
  assumes wf: "well_formed w" and sv: "services w' = services w"
    and sg: "length (signals w') = length (signals w)"
    and hp: "heap w' = (heap w)[p := r]" and p: "p < length (heap w)"
    and svc: "service r = service (heap w ! p)"
    and lv: "live (state r) = live (state (heap w ! p))"
    and ws: "\<forall>s \<in> set (waiters r). s < length (signals w)"
    and rd: "\<forall>s \<in> set_option (ready r). s < length (signals w)"
  shows "well_formed w'"
proof -
  have nth: "heap w' ! q = (if q = p then r else heap w ! q)" if "q < length (heap w)" for q
    using that hp by (simp add: nth_list_update)
  have len: "length (heap w') = length (heap w)" using hp by simp
  have ok: "registry_ok w" and inv: "registry_inv w" and sok: "signals_ok w"
    using wf by (simp_all add: well_formed_def)
  have "registry_ok w'"
    unfolding registry_ok_def
  proof (intro conjI ballI)
    show "distinct (map fst (services w'))" using ok sv by (simp add: registry_ok_def)
  next
    fix x assume x: "x \<in> set (services w')"
    obtain D q where xq: "x = (D, q)" by (cases x)
    with x sv ok have q: "q < length (heap w)" "service (heap w ! q) = D"
      by (auto simp: registry_ok_def)
    then have "service (heap w' ! q) = D" using nth [of q] svc by (cases "q = p") simp_all
    with q len xq
    show "case x of (D, p) \<Rightarrow> p < length (heap w') \<and> service (heap w' ! p) = D"
      by simp
  qed
  moreover have "registry_inv w'"
    unfolding registry_inv_def
  proof
    fix q assume "q \<in> {..<length (heap w')}"
    then have q: "q < length (heap w)" using len by simp
    then have "registered w q = live (state (heap w ! q))"
      using inv by (simp add: registry_inv_def)
    moreover have "registered w' q = registered w q" using sv by (simp add: registered_def)
    moreover have "live (state (heap w' ! q)) = live (state (heap w ! q))"
      using nth [OF q] lv by (cases "q = p") simp_all
    ultimately show "registered w' q = live (state (heap w' ! q))" by simp
  qed
  moreover have "signals_ok w'"
    unfolding signals_ok_def
  proof
    fix q assume "q \<in> {..<length (heap w')}"
    then have q: "q < length (heap w)" using len by simp
    then have old: "(\<forall>s \<in> set (waiters (heap w ! q)). s < length (signals w)) \<and>
        (\<forall>s \<in> set_option (ready (heap w ! q)). s < length (signals w))"
      using sok by (simp add: signals_ok_def)
    show "(\<forall>s \<in> set (waiters (heap w' ! q)). s < length (signals w')) \<and>
        (\<forall>s \<in> set_option (ready (heap w' ! q)). s < length (signals w'))"
    proof (cases "q = p")
      case True
      with nth [OF q] ws rd sg show ?thesis by simp
    next
      case False
      with nth [OF q] old sg show ?thesis by simp
    qed
  qed
  ultimately show ?thesis by (simp add: well_formed_def)
qed

lemma wf_upd_rs:
  assumes "well_formed w" and "p < length (heap w)"
    and "service (f (heap w ! p)) = service (heap w ! p)"
    and "live (state (f (heap w ! p))) = live (state (heap w ! p))"
    and "\<forall>s \<in> set (waiters (f (heap w ! p))). s < length (signals w)"
    and "\<forall>s \<in> set_option (ready (f (heap w ! p))). s < length (signals w)"
  shows "well_formed (upd_rs w p f)"
  using assms by - (rule wf_heap_update [where w = w and p = p and r = "f (heap w ! p)"], simp_all)

lemma wf_rs_bounds:
  assumes "well_formed w" and "p < length (heap w)"
  shows "\<forall>s \<in> set (waiters (heap w ! p)). s < length (signals w)"
    and "\<forall>s \<in> set_option (ready (heap w ! p)). s < length (signals w)"
  using assms by (auto simp: well_formed_def signals_ok_def)

lemma wf_emit [simp]: "well_formed (emit w e) = well_formed w"
  by (rule wf_frame) simp_all

lemma wf_Lock [simp]: "well_formed (Lock w) = well_formed w"
  by (rule wf_frame) simp_all

lemma wf_Unlock [simp]: "well_formed (Unlock w) = well_formed w"
  by (rule wf_frame) simp_all

lemma wf_Done [simp]: "well_formed (Done w s e) = well_formed w"
  by (rule wf_frame) simp_all

lemma wf_raiseOnState [simp]: "well_formed (raiseOnState w svc a b) = well_formed w"
  by (rule wf_frame) simp_all

lemma wf_raiseOnEnded [simp]: "well_formed (raiseOnEnded w stg svc err) = well_formed w"
  by (rule wf_frame) simp_all

lemma notify_length_signals [simp]: "length (signals (notify w ss e)) = length (signals w)"
  by (induction ss arbitrary: w) simp_all

lemma wf_notify [simp]: "well_formed (notify w ss e) = well_formed w"
  by (rule wf_frame) simp_all


lemma live_simps [simp]:
  "live Starting" "live Started" "live Halting" "\<not> live Halted" "\<not> live Ended"
  by (simp_all add: live_def)

lemma wf_setState:
  assumes "well_formed w" and "p < length (heap w)" and "live t = live (state (heap w ! p))"
  shows "well_formed (setState w p t)"
  using assms wf_rs_bounds [of w p]
  by - (rule wf_heap_update [where w = w and p = p and r = "(heap w ! p)\<lparr>state := t\<rparr>"], simp_all)

lemma wf_setReady:
  assumes "well_formed w" and "p < length (heap w)"
  shows "well_formed (setReady w p e)"
  using assms wf_rs_bounds [of w p]
  by - (rule wf_heap_update [where w = w and p = p and r = "(heap w ! p)\<lparr>ready := None\<rparr>"],
        simp_all add: setReady_signals split: option.splits)

lemma halting_length_heap [simp]: "length (heap (fst (halting w p dn))) = length (heap w)"
  by (simp add: halting_def Let_def)

lemma halting_length_signals [simp]:
  "length (signals (fst (halting w p dn))) = length (signals w)"
  by (simp add: halting_def Let_def setReady_signals split: option.splits)

lemma halting_services [simp]: "services (fst (halting w p dn)) = services w"
  by (simp add: halting_def Let_def)

lemma wf_halting:
  assumes wf: "well_formed w" and p: "p < length (heap w)" and dn: "dn < length (signals w)"
  shows "well_formed (fst (halting w p dn))"
proof -
  let ?rs = "heap w ! p"
  note b = wf_rs_bounds [OF wf p]
  consider (h) "state ?rs = Halting" | (s) "state ?rs = Starting \<or> state ?rs = Started"
    | (o) "state ?rs \<noteq> Halting" "state ?rs \<noteq> Starting" "state ?rs \<noteq> Started"
    by blast
  then show ?thesis
  proof cases
    case h
    have "well_formed (upd_rs w p (\<lambda>r. r\<lparr>waiters := waiters r @ [dn]\<rparr>))"
      using wf p b dn by - (rule wf_upd_rs, simp_all)
    with h show ?thesis by (simp add: halting_def)
  next
    case s
    let ?w1 = "setReady w p (Some errHalted)"
    let ?w2 = "setState ?w1 p Halting"
    let ?w3 = "upd_rs ?w2 p (\<lambda>r. r\<lparr>rs_done := Some Closed\<rparr>)"
    let ?w4 = "upd_rs ?w3 p (\<lambda>r. r\<lparr>waiters := waiters r @ [dn]\<rparr>)"
    have 1: "well_formed ?w1" using wf p by (rule wf_setReady)
    have p1: "p < length (heap ?w1)" using p by simp
    have st1: "state (heap ?w1 ! p) = state ?rs" using p by simp
    have 2: "well_formed ?w2" using 1 p1 s st1 by - (rule wf_setState, auto)
    have p2: "p < length (heap ?w2)" using p by simp
    have 3: "well_formed ?w3" using 2 p2 wf_rs_bounds [OF 2 p2] by - (rule wf_upd_rs, simp_all)
    have p3: "p < length (heap ?w3)" using p by simp
    have sg3: "length (signals ?w3) = length (signals w)"
      by (simp add: setReady_signals split: option.splits)
    have 4: "well_formed ?w4"
      using 3 p3 wf_rs_bounds [OF 3 p3] dn sg3 by - (rule wf_upd_rs, simp_all)
    from s have "fst (halting w p dn) = ?w4" by (auto simp: halting_def Let_def)
    with 4 show ?thesis by simp
  next
    case o
    then show ?thesis using wf by (simp add: halting_def)
  qed
qed

lemma Ready_length_heap [simp]: "length (heap (fst (Ready w p))) = length (heap w)"
  by (simp add: Ready_def Let_def)

lemma Ready_length_signals [simp]: "length (signals (fst (Ready w p))) = length (signals w)"
  by (simp add: Ready_def Let_def setReady_signals split: option.splits)

lemma Ready_services [simp]: "services (fst (Ready w p)) = services w"
  by (simp add: Ready_def Let_def)

lemma wf_Ready:
  assumes wf: "well_formed w" and p: "p < length (heap w)"
  shows "well_formed (fst (Ready w p))"
proof (cases "readyCalled (heap w ! p) \<or> state (heap w ! p) \<noteq> Starting")
  case True
  then show ?thesis using wf by (auto simp: Ready_def)
next
  case False
  let ?w1 = "upd_rs w p (\<lambda>r. r\<lparr>readyCalled := True, stage := StageRun\<rparr>)"
  let ?w2 = "setState ?w1 p Started"
  have 1: "well_formed ?w1" using wf p wf_rs_bounds [OF wf p] by - (rule wf_upd_rs, simp_all)
  have p1: "p < length (heap ?w1)" using p by simp
  have "state (heap ?w1 ! p) = Starting" using False p by simp
  then have 2: "well_formed ?w2" using 1 p1 by - (rule wf_setState, simp_all)
  have p2: "p < length (heap ?w2)" using p by simp
  have "well_formed (setReady ?w2 p None)" using 2 p2 by (rule wf_setReady)
  with False show ?thesis by (simp add: Ready_def Let_def)
qed


lemma ended_services [simp]:
  "services (fst (ended w p e)) = AList.delete (service (heap w ! p)) (services w)"
  by (simp add: ended_def Let_def)

lemma ended_length_heap [simp]: "length (heap (fst (ended w p e))) = length (heap w)"
  by (simp add: ended_def Let_def)

lemma ended_length_signals [simp]:
  "length (signals (fst (ended w p e))) = length (signals w)"
  by (simp add: ended_def Let_def setReady_signals split: option.splits)

lemma ended_heap_other:
  "q \<noteq> p \<Longrightarrow> heap (fst (ended w p e)) ! q = heap w ! q"
  by (simp add: ended_def Let_def)

lemma ended_heap_self:
  assumes "p < length (heap w)"
  shows "heap (fst (ended w p e)) ! p =
     (heap w ! p)\<lparr>state := Ended, rs_done := None, readyCalled := False, waiters := [],
        ready := (if stage (heap w ! p) = StageReady then None else ready (heap w ! p))\<rparr>"
  using assms by (simp add: ended_def Let_def)

lemma wf_ended:
  assumes wf: "well_formed w" and run: "running w p"
  shows "well_formed (fst (ended w p e))"
proof -
  let ?w' = "fst (ended w p e)"
  let ?svc = "service (heap w ! p)"
  have p: "p < length (heap w)" and lv: "live (state (heap w ! p))"
    using run by (simp_all add: running_def)
  have ok: "registry_ok w" and inv: "registry_inv w" and sok: "signals_ok w"
    using wf by (simp_all add: well_formed_def)
  have reg: "(?svc, p) \<in> set (services w)"
  proof -
    from inv p lv have "registered w p" by (simp add: registry_inv_def)
    then obtain D where D: "(D, p) \<in> set (services w)" by (auto simp: registered_def)
    with ok have "service (heap w ! p) = D" by (auto simp: registry_ok_def)
    with D show ?thesis by simp
  qed
  have mem: "(D, q) \<in> set (services ?w') \<longleftrightarrow> (D, q) \<in> set (services w) \<and> D \<noteq> ?svc" for D q
    by (auto simp: AList.delete_eq)
  have self: "state (heap ?w' ! p) = Ended" "waiters (heap ?w' ! p) = []"
    "service (heap ?w' ! p) = ?svc"
    "ready (heap ?w' ! p) = None \<or> ready (heap ?w' ! p) = ready (heap w ! p)"
    using ended_heap_self [OF p, of e] by simp_all
  have "registry_ok ?w'"
    unfolding registry_ok_def
  proof (intro conjI ballI)
    show "distinct (map fst (services ?w'))"
      using ok by (simp add: registry_ok_def distinct_delete)
  next
    fix x assume x: "x \<in> set (services ?w')"
    obtain D q where xq: "x = (D, q)" by (cases x)
    with x mem have old: "(D, q) \<in> set (services w)" and ne: "D \<noteq> ?svc" by simp_all
    from old ok have q: "q < length (heap w)" "service (heap w ! q) = D"
      by (auto simp: registry_ok_def)
    with ne have "q \<noteq> p" by auto
    then have "heap ?w' ! q = heap w ! q" by (rule ended_heap_other)
    with q xq
    show "case x of (D, p) \<Rightarrow> p < length (heap ?w') \<and> service (heap ?w' ! p) = D"
      by simp
  qed
  moreover have "registry_inv ?w'"
    unfolding registry_inv_def
  proof
    fix q assume "q \<in> {..<length (heap ?w')}"
    then have q: "q < length (heap w)" by simp
    show "registered ?w' q = live (state (heap ?w' ! q))"
    proof (cases "q = p")
      case True
      have "\<not> registered ?w' p"
      proof
        assume "registered ?w' p"
        then obtain D where "(D, p) \<in> set (services ?w')" by (auto simp: registered_def)
        with mem have "(D, p) \<in> set (services w)" and "D \<noteq> ?svc" by simp_all
        with ok show False by (auto simp: registry_ok_def)
      qed
      with True self show ?thesis by simp
    next
      case False
      then have same: "heap ?w' ! q = heap w ! q" by (rule ended_heap_other)
      have "registered ?w' q = registered w q"
      proof
        assume "registered ?w' q"
        then show "registered w q" using mem by (auto simp: registered_def)
      next
        assume "registered w q"
        then obtain D where D: "(D, q) \<in> set (services w)" by (auto simp: registered_def)
        have "D \<noteq> ?svc"
        proof
          assume "D = ?svc"
          with D reg ok have "q = p"
            by (auto simp: registry_ok_def dest: eq_key_imp_eq_value)
          with False show False by simp
        qed
        with D mem have "(D, q) \<in> set (services ?w')" by simp
        then show "registered ?w' q" by (force simp: registered_def)
      qed
      with same inv q show ?thesis by (simp add: registry_inv_def)
    qed
  qed
  moreover have "signals_ok ?w'"
    unfolding signals_ok_def
  proof
    fix q assume "q \<in> {..<length (heap ?w')}"
    then have q: "q < length (heap w)" by simp
    then have old: "(\<forall>s \<in> set (waiters (heap w ! q)). s < length (signals w)) \<and>
        (\<forall>s \<in> set_option (ready (heap w ! q)). s < length (signals w))"
      using sok by (simp add: signals_ok_def)
    show "(\<forall>s \<in> set (waiters (heap ?w' ! q)). s < length (signals ?w')) \<and>
        (\<forall>s \<in> set_option (ready (heap ?w' ! q)). s < length (signals ?w'))"
    proof (cases "q = p")
      case True
      with self old show ?thesis by auto
    next
      case False
      then have "heap ?w' ! q = heap w ! q" by (rule ended_heap_other)
      with old show ?thesis by simp
    qed
  qed
  ultimately show ?thesis by (simp add: well_formed_def)
qed

lemma step_length_heap [simp]: "length (heap (step w a)) = length (heap w)"
  by (simp add: step_def split: action.splits)

lemma step_length_signals [simp]: "length (signals (step w a)) = length (signals w)"
  by (simp add: step_def split: action.splits)

lemma wf_step: "well_formed w \<Longrightarrow> well_formed (step w a)"
  by (auto simp: step_def running_def intro: wf_Ready wf_ended split: action.splits)

lemma wf_run: "well_formed w \<Longrightarrow> well_formed (run w acts)"
  by (induction acts arbitrary: w) (simp_all add: wf_step)

lemma run_length_heap [simp]: "length (heap (run w acts)) = length (heap w)"
  by (induction acts arbitrary: w) simp_all

lemma run_length_signals [simp]: "length (signals (run w acts)) = length (signals w)"
  by (induction acts arbitrary: w) simp_all

lemma update_fresh:
  "k \<notin> fst ` set al \<Longrightarrow> AList.update k v al = al @ [(k, v)]"
  by (induction al) auto

lemma map_of_None_fresh: "map_of al k = None \<Longrightarrow> k \<notin> fst ` set al"
  by (simp add: map_of_eq_None_iff)

text \<open>The record a Start call creates for a descriptor that is not registered.\<close>

lemma Start_one_new:
  assumes "Runnable (descriptors w ! s) \<noteq> None" and "map_of (services w) s = None"
  shows "services (Start_one w ctx rdy (Some s)) = services w @ [(s, length (heap w))]"
    and "heap (Start_one w ctx rdy (Some s)) =
      heap w @ [\<lparr>rs_id = nextID w + 1, service = s, ready = Some rdy, stage = StageReady,
          state = Starting, waiters = [], rs_done = Some Open, readyCalled = False\<rparr>]"
    and "signals (Start_one w ctx rdy (Some s)) = signals w"
    and "nextID (Start_one w ctx rdy (Some s)) = nextID w + 1"
proof -
  from assms obtain y where y: "Runnable (descriptors w ! s) = Some y" by auto
  note defs = Start_one_def newRunnerService_def starting_def Let_def update_fresh map_of_None_fresh
  show "services (Start_one w ctx rdy (Some s)) = services w @ [(s, length (heap w))]"
    using y assms(2) by (simp add: defs)
  show "heap (Start_one w ctx rdy (Some s)) =
      heap w @ [\<lparr>rs_id = nextID w + 1, service = s, ready = Some rdy, stage = StageReady,
          state = Starting, waiters = [], rs_done = Some Open, readyCalled = False\<rparr>]"
    using y assms(2) by (simp add: defs)
  show "signals (Start_one w ctx rdy (Some s)) = signals w"
    using y assms(2) by (simp add: defs)
  show "nextID (Start_one w ctx rdy (Some s)) = nextID w + 1"
    using y assms(2) by (simp add: defs)
qed

lemma Start_one_old:
  assumes "svc = None \<or> Runnable (descriptors w ! the svc) = None \<or> map_of (services w) (the svc) \<noteq> None"
  shows "services (Start_one w ctx rdy svc) = services w"
    and "heap (Start_one w ctx rdy svc) = heap w"
    and "length (signals (Start_one w ctx rdy svc)) = length (signals w)"
    and "nextID (Start_one w ctx rdy svc) = nextID w"
  using assms by (auto simp: Start_one_def split: option.splits)

lemma Start_one_length_signals [simp]:
  "length (signals (Start_one w ctx rdy svc)) = length (signals w)"
proof (cases "svc = None \<or> Runnable (descriptors w ! the svc) = None \<or> map_of (services w) (the svc) \<noteq> None")
  case True
  then show ?thesis by (rule Start_one_old)
next
  case False
  then obtain s where "svc = Some s" "Runnable (descriptors w ! s) \<noteq> None" "map_of (services w) s = None"
    by (cases svc) auto
  then show ?thesis by (simp add: Start_one_new)
qed

lemma wf_Start_one:
  assumes wf: "well_formed w" and rdy: "rdy < length (signals w)"
  shows "well_formed (Start_one w ctx rdy svc)"
proof (cases "svc = None \<or> Runnable (descriptors w ! the svc) = None \<or> map_of (services w) (the svc) \<noteq> None")
  case True
  have "well_formed (Start_one w ctx rdy svc) = well_formed w"
    by (rule wf_frame) (rule Start_one_old [OF True])+
  with wf show ?thesis by simp
next
  case False
  then obtain s where s: "svc = Some s" "Runnable (descriptors w ! s) \<noteq> None" "map_of (services w) s = None"
    by (cases svc) auto
  let ?w' = "Start_one w ctx rdy (Some s)"
  let ?p = "length (heap w)"
  note n = Start_one_new [OF s(2,3), of ctx rdy]
  have ok: "registry_ok w" and inv: "registry_inv w" and sok: "signals_ok w"
    using wf by (simp_all add: well_formed_def)
  have fresh: "s \<notin> fst ` set (services w)" using s(3) by (rule map_of_None_fresh)
  have oldp: "q < ?p" if "(D, q) \<in> set (services w)" for D q
    using that ok by (auto simp: registry_ok_def)
  have "registry_ok ?w'"
    unfolding registry_ok_def
  proof (intro conjI ballI)
    show "distinct (map fst (services ?w'))"
      using ok fresh by (simp add: n registry_ok_def)
  next
    fix x assume x: "x \<in> set (services ?w')"
    obtain D q where xq: "x = (D, q)" by (cases x)
    with x n have "(D, q) \<in> set (services w) \<or> (D = s \<and> q = ?p)" by auto
    then show "case x of (D, p) \<Rightarrow> p < length (heap ?w') \<and> service (heap ?w' ! p) = D"
    proof
      assume old: "(D, q) \<in> set (services w)"
      with ok have "q < ?p" "service (heap w ! q) = D"
        by (auto simp: registry_ok_def)
      with xq show ?thesis by (simp add: n nth_append)
    next
      assume "D = s \<and> q = ?p"
      with xq s show ?thesis by (simp add: n)
    qed
  qed
  moreover have "registry_inv ?w'"
    unfolding registry_inv_def
  proof
    fix q assume "q \<in> {..<length (heap ?w')}"
    then have "q < ?p \<or> q = ?p" by (auto simp: n)
    then show "registered ?w' q = live (state (heap ?w' ! q))"
    proof
      assume q: "q < ?p"
      then have "registered ?w' q = registered w q"
        by (auto simp: registered_def n)
      with q inv show ?thesis by (simp add: n nth_append registry_inv_def)
    next
      assume "q = ?p"
      then show ?thesis by (simp add: n registered_def)
    qed
  qed
  moreover have "signals_ok ?w'"
    unfolding signals_ok_def
  proof
    fix q assume "q \<in> {..<length (heap ?w')}"
    then have "q < ?p \<or> q = ?p" by (auto simp: n)
    then show "(\<forall>s \<in> set (waiters (heap ?w' ! q)). s < length (signals ?w')) \<and>
        (\<forall>s \<in> set_option (ready (heap ?w' ! q)). s < length (signals ?w'))"
    proof
      assume "q < ?p"
      with sok show ?thesis by (simp add: n nth_append signals_ok_def)
    next
      assume "q = ?p"
      with rdy show ?thesis by (simp add: n)
    qed
  qed
  ultimately show ?thesis using s by (simp add: well_formed_def)
qed

lemma wf_Start_loop:
  "well_formed w \<Longrightarrow> rdy < length (signals w) \<Longrightarrow> well_formed (Start_loop w ctx rdy svcs)"
  by (induction svcs arbitrary: w) (simp_all add: wf_Start_one)

lemma wf_NewSignal: "well_formed w \<Longrightarrow> well_formed (fst (NewSignal w n))"
  by (auto simp: well_formed_def registry_ok_def registry_inv_def signals_ok_def registered_def
      less_Suc_eq)

lemma wf_Start_locked: "well_formed w \<Longrightarrow> well_formed (fst (Start_locked w ctx svcs))"
  by (simp add: Start_locked_def Let_def split_beta wf_Start_loop wf_NewSignal)


lemma wf_world_new: "well_formed world_new"
  by (simp add: well_formed_def registry_ok_def registry_inv_def signals_ok_def world_new_def
      NewRunner_def)


lemma lookup_in_heap:
  assumes "well_formed w" and "lookup w svc = Some p"
  shows "p < length (heap w)" and "registered w p" and "running w p"
    and "svc = Some (service (heap w ! p))"
proof -
  from assms(2) obtain s where s: "svc = Some s" "map_of (services w) s = Some p"
    by (cases svc) (auto simp: lookup_def)
  then have mem: "(s, p) \<in> set (services w)" by (simp add: map_of_SomeD)
  with assms(1) show p: "p < length (heap w)" by (auto simp: well_formed_def registry_ok_def)
  from mem show r: "registered w p" by (force simp: registered_def)
  with assms(1) p show "running w p"
    by (simp add: well_formed_def registry_inv_def running_def)
  from mem assms(1) s show "svc = Some (service (heap w ! p))"
    by (auto simp: well_formed_def registry_ok_def)
qed

lemma halting_live:
  assumes "live (state (heap w ! p))"
  shows "snd (halting w p dn) = None"
  using assms by (auto simp: halting_def live_def Let_def)

lemma halting_heap_other:
  "q \<noteq> p \<Longrightarrow> heap (fst (halting w p dn)) ! q = heap w ! q"
  by (simp add: halting_def Let_def)

lemma halting_state_self:
  assumes "p < length (heap w)" and "live (state (heap w ! p))"
  shows "state (heap (fst (halting w p dn)) ! p) = Halting"
  using assms by (auto simp: halting_def live_def Let_def)

lemma halting_running:
  assumes "running w q"
  shows "running (fst (halting w p dn)) q"
proof (cases "q = p")
  case True
  with assms halting_state_self [of p w dn] show ?thesis by (simp add: running_def)
next
  case False
  with assms halting_heap_other [of q p w dn] show ?thesis by (simp add: running_def)
qed

lemma Halt_one_length_signals [simp]:
  "length (signals (fst (Halt_one we dn svc))) = length (signals (fst we))"
proof (cases we)
  case (Pair w errs)
  show ?thesis
  proof (cases "lookup w svc")
    case None
    with Pair show ?thesis by (simp add: Halt_one_def)
  next
    case (Some p)
    with Pair halting_length_signals [of w p dn] show ?thesis
      by (cases "halting w p dn") (auto simp: Halt_one_def split: option.splits)
  qed
qed

lemma Halt_one_services [simp]: "services (fst (Halt_one we dn svc)) = services (fst we)"
proof (cases we)
  case (Pair w errs)
  show ?thesis
  proof (cases "lookup w svc")
    case None
    with Pair show ?thesis by (simp add: Halt_one_def)
  next
    case (Some p)
    with Pair halting_services [of w p dn] show ?thesis
      by (cases "halting w p dn") (auto simp: Halt_one_def split: option.splits)
  qed
qed

lemma wf_Halt_one:
  assumes wf: "well_formed (fst we)" and dn: "dn < length (signals (fst we))"
  shows "well_formed (fst (Halt_one we dn svc)) \<and> snd (Halt_one we dn svc) = snd we"
proof (cases we)
  case (Pair w errs)
  show ?thesis
  proof (cases "lookup w svc")
    case None
    with Pair wf show ?thesis by (simp add: Halt_one_def)
  next
    case (Some p)
    from wf Pair have wfw: "well_formed w" by simp
    note l = lookup_in_heap [OF wfw Some]
    from wf_halting [OF wfw l(1), of dn] dn Pair
    have 1: "well_formed (fst (halting w p dn))" by simp
    from l(3) have 2: "snd (halting w p dn) = None"
      by (simp add: running_def halting_live)
    from 1 2 Some Pair show ?thesis
      by (cases "halting w p dn") (simp add: Halt_one_def)
  qed
qed

lemma wf_Halt_loop:
  "well_formed (fst we) \<Longrightarrow> dn < length (signals (fst we)) \<Longrightarrow>
   well_formed (fst (Halt_loop we dn svcs)) \<and> snd (Halt_loop we dn svcs) = snd we"
proof (induction svcs arbitrary: we)
  case Nil
  then show ?case by simp
next
  case (Cons svc svcs)
  from wf_Halt_one [OF Cons.prems, of svc]
  have 1: "well_formed (fst (Halt_one we dn svc))" and 2: "snd (Halt_one we dn svc) = snd we"
    by simp_all
  from Cons.prems(2) have "dn < length (signals (fst (Halt_one we dn svc)))" by simp
  from Cons.IH [OF 1 this] 2 show ?case by simp
qed

lemma wf_Halt_locked:
  assumes "well_formed w"
  shows "well_formed (fst (Halt_locked w svcs))" and "snd (snd (Halt_locked w svcs)) = []"
proof -
  let ?we = "(Lock (fst (NewSignal w (length svcs))), [])"
  have 1: "well_formed (fst ?we)" using assms by (simp add: wf_NewSignal)
  have 2: "length (signals w) < length (signals (fst ?we))" by simp
  from wf_Halt_loop [OF 1 2, of svcs]
  show "well_formed (fst (Halt_locked w svcs))" and "snd (snd (Halt_locked w svcs)) = []"
    by (simp_all add: Halt_locked_def Let_def split_beta)
qed




subsection \<open>The example worlds\<close>

lemma world_starting_eq:
  "world_starting = \<lparr>onEnd = False, onError = False, onState = False, nextID = 1,
    services = [(svcA, 0)], rn_state = RunnerEnabled,
    heap = [\<lparr>rs_id = 1, service = svcA, ready = Some 0, stage = StageReady, state = Starting,
          waiters = [], rs_done = Some Open, readyCalled = False\<rparr>],
    signals = [\<lparr>cap = 1, slots = []\<rparr>],
    descriptors = two_descriptors,
    trace = [EvLock, EvGoRun 0, EvUnlock]\<rparr>"
  by code_simp

lemma world_started_eq:
  "world_started = \<lparr>onEnd = False, onError = False, onState = False, nextID = 1,
    services = [(svcA, 0)], rn_state = RunnerEnabled,
    heap = [\<lparr>rs_id = 1, service = svcA, ready = None, stage = StageRun, state = Started,
          waiters = [], rs_done = Some Open, readyCalled = True\<rparr>],
    signals = [\<lparr>cap = 1, slots = [None]\<rparr>],
    descriptors = two_descriptors,
    trace = [EvLock, EvGoRun 0, EvUnlock, EvDone 0 None]\<rparr>"
  by code_simp

lemma world_halting_eq:
  "world_halting = \<lparr>onEnd = False, onError = False, onState = False, nextID = 1,
    services = [(svcA, 0)], rn_state = RunnerEnabled,
    heap = [\<lparr>rs_id = 1, service = svcA, ready = None, stage = StageRun, state = Halting,
          waiters = [1], rs_done = Some Closed, readyCalled = True\<rparr>],
    signals = [\<lparr>cap = 1, slots = [None]\<rparr>, \<lparr>cap = 1, slots = []\<rparr>],
    descriptors = two_descriptors,
    trace = [EvLock, EvGoRun 0, EvUnlock, EvDone 0 None, EvLock, EvUnlock]\<rparr>"
  by code_simp





subsection \<open>The trace of the end path\<close>

lemma raiseOnState_trace [simp]:
  "trace (raiseOnState w svc a b) = trace w @ onState_events w svc a b"
  by (simp add: raiseOnState_def onState_events_def Let_def)

lemma raiseOnEnded_trace [simp]:
  "trace (raiseOnEnded w stg svc err) = trace w @ onEnded_events w stg svc err"
  by (simp add: raiseOnEnded_def onEnded_events_def Let_def)

lemma onState_events_frame:
  "onState w' = onState w \<Longrightarrow> descriptors w' = descriptors w \<Longrightarrow>
     onState_events w' svc a b = onState_events w svc a b"
  by (simp add: onState_events_def)

lemma onEnded_events_frame:
  "onEnd w' = onEnd w \<Longrightarrow> descriptors w' = descriptors w \<Longrightarrow>
     onEnded_events w' stg svc err = onEnded_events w stg svc err"
  by (simp add: onEnded_events_def)

lemma setState_trace [simp]:
  "trace (setState w p t) = trace w @ onState_events w (service (heap w ! p)) (state (heap w ! p)) t"
  by (simp add: setState_def Let_def onState_events_frame [of "upd_rs w p f" w for f])

lemma setReady_trace:
  "trace (setReady w p e) =
     trace w @ (case ready (heap w ! p) of None \<Rightarrow> [] | Some r \<Rightarrow> [EvDone r e])"
  by (simp add: setReady_def split: option.splits)

text \<open>The events of the end path, in order.\<close>

lemma ended_trace:
  assumes "p < length (heap w)"
  shows "trace (fst (ended w p err)) = trace w @
     [EvLock, EvDelete (service (heap w ! p)), EvRsLock p] @
     onState_events w (service (heap w ! p)) (state (heap w ! p)) Ended @
     (if stage (heap w ! p) = StageReady
      then (case ready (heap w ! p) of None \<Rightarrow> [] | Some r \<Rightarrow> [EvDone r err]) else []) @
     onEnded_events w (stage (heap w ! p)) (service (heap w ! p)) err @
     map (\<lambda>s. EvDone s (if stage (heap w ! p) = StageReady then None else err))
       (waiters (heap w ! p)) @
     [EvRsUnlock p, EvUnlock]"
  using assms
  by (simp add: ended_def Let_def notify_trace setReady_trace onState_events_def onEnded_events_def)


lemma notifications_append [simp]:
  "notifications (xs @ ys) = notifications xs @ notifications ys"
  by (induction xs rule: notifications.induct) simp_all

lemma notifications_Done [simp]:
  "notifications (map (\<lambda>s. EvDone s e) ws) = map (\<lambda>s. (s, e)) ws"
  by (induction ws) simp_all

lemma notifications_onState [simp]: "notifications (onState_events w svc a b) = []"
  by (simp add: onState_events_def)

lemma notifications_onEnded [simp]: "notifications (onEnded_events w stg svc err) = []"
  by (simp add: onEnded_events_def)

lemma new_events_append [simp]: "trace w' = trace w @ evs \<Longrightarrow> new_events w w' = evs"
  by (simp add: new_events_def)

lemma ended_notifications:
  assumes "p < length (heap w)"
  shows "notifications (new_events w (fst (ended w p err))) =
     (if stage (heap w ! p) = StageReady
      then (case ready (heap w ! p) of None \<Rightarrow> [] | Some r \<Rightarrow> [(r, err)]) @
           map (\<lambda>s. (s, None)) (waiters (heap w ! p))
      else map (\<lambda>s. (s, err)) (waiters (heap w ! p)))"
  by (simp add: new_events_append [OF ended_trace [OF assms]] split: option.splits)

lemma ended_signals:
  assumes "p < length (heap w)"
  shows "signals (fst (ended w p err)) =
     foldl (\<lambda>sgs (s, e). complete sgs s e) (signals w)
       (if stage (heap w ! p) = StageReady
        then (case ready (heap w ! p) of None \<Rightarrow> [] | Some r \<Rightarrow> [(r, err)]) @
             map (\<lambda>s. (s, None)) (waiters (heap w ! p))
        else map (\<lambda>s. (s, err)) (waiters (heap w ! p)))"
  using assms
  by (simp add: ended_def Let_def notify_signals setReady_signals foldl_map split: option.splits)

lemma world_halted_early_eq:
  "world_halted_early =
    \<lparr>onEnd = False, onError = False, onState = False, nextID = 1,
      services = [(svcA, 0)], rn_state = RunnerEnabled,
      heap = [\<lparr>rs_id = 1, service = svcA, ready = None, stage = StageReady, state = Halting,
            waiters = [1], rs_done = Some Closed, readyCalled = False\<rparr>],
      signals = [\<lparr>cap = 1, slots = [Some errHalted]\<rparr>, \<lparr>cap = 1, slots = []\<rparr>],
      descriptors = two_descriptors,
      trace = [EvLock, EvGoRun 0, EvUnlock, EvLock, EvDone 0 (Some errHalted), EvUnlock]\<rparr>"
  by code_simp

subsection \<open>Critical sections\<close>

lemma quietI:
  assumes "trace w' = trace w @ evs" and "EvLock \<notin> set evs" and "EvUnlock \<notin> set evs"
  shows "quiet w w'"
  using assms by (simp add: quiet_def new_events_def)

lemma quietE:
  assumes "quiet w w'"
  obtains evs where "trace w' = trace w @ evs" and "EvLock \<notin> set evs" and "EvUnlock \<notin> set evs"
    and "new_events w w' = evs"
  using assms unfolding quiet_def by blast

lemma quiet_refl [simp]: "quiet w w"
  by (rule quietI [where evs = "[]"]) simp_all

lemma quiet_trans:
  assumes "quiet w w'" and "quiet w' w''"
  shows "quiet w w''"
proof -
  from assms(1) obtain xs where xs: "trace w' = trace w @ xs" "EvLock \<notin> set xs" "EvUnlock \<notin> set xs"
    by (rule quietE)
  from assms(2) obtain ys where ys: "trace w'' = trace w' @ ys" "EvLock \<notin> set ys" "EvUnlock \<notin> set ys"
    by (rule quietE)
  show ?thesis by (rule quietI [where evs = "xs @ ys"]) (simp_all add: xs ys)
qed

lemma quiet_same: "trace w' = trace w \<Longrightarrow> quiet w w'"
  by (rule quietI [where evs = "[]"]) simp_all

lemma quiet_emit: "e \<noteq> EvLock \<Longrightarrow> e \<noteq> EvUnlock \<Longrightarrow> quiet w (emit w e)"
  by (rule quietI [where evs = "[e]"]) simp_all

lemma quiet_raiseOnEnded [simp]: "quiet w (raiseOnEnded w stg svc err)"
  by (rule quietI [where evs = "onEnded_events w stg svc err"])
     (simp_all add: onEnded_events_def)

lemma quiet_notify [simp]: "quiet w (notify w ss e)"
  by (rule quietI [where evs = "map (\<lambda>s. EvDone s e) ss"]) (auto simp: notify_trace)

lemma quiet_Done [simp]: "quiet w (Done w s e)"
  by (rule quietI [where evs = "[EvDone s e]"]) simp_all

lemma quiet_upd_rs [simp]: "quiet w (upd_rs w p f)"
  by (rule quiet_same) simp

lemma quiet_setState [simp]: "quiet w (setState w p t)"
  by (rule quietI [where evs = "onState_events w (service (heap w ! p)) (state (heap w ! p)) t"])
     (simp_all add: onState_events_def)

lemma quiet_setReady [simp]: "quiet w (setReady w p e)"
  by (rule quietI [where evs = "case ready (heap w ! p) of None \<Rightarrow> [] | Some r \<Rightarrow> [EvDone r e]"])
     (simp_all add: setReady_trace split: option.splits)

lemma quiet_halting [simp]: "quiet w (fst (halting w p dn))"
proof -
  let ?w1 = "setReady w p (Some errHalted)"
  let ?w2 = "setState ?w1 p Halting"
  let ?w3 = "upd_rs ?w2 p (\<lambda>r. r\<lparr>rs_done := Some Closed\<rparr>)"
  let ?w4 = "upd_rs ?w3 p (\<lambda>r. r\<lparr>waiters := waiters r @ [dn]\<rparr>)"
  have "quiet w ?w4"
    by (rule quiet_trans [OF quiet_setReady], rule quiet_trans [OF quiet_setState],
        rule quiet_trans [OF quiet_upd_rs], rule quiet_upd_rs)
  then show ?thesis by (simp add: halting_def Let_def)
qed

lemma quiet_Start_one [simp]: "quiet w (Start_one w ctx rdy svc)"
proof (cases "svc = None \<or> Runnable (descriptors w ! the svc) = None \<or> map_of (services w) (the svc) \<noteq> None")
  case True
  then show ?thesis by (auto simp: Start_one_def split: option.splits)
next
  case False
  then obtain s y where s: "svc = Some s" "Runnable (descriptors w ! s) = Some y" "map_of (services w) s = None"
    by (cases svc) auto
  let ?p = "length (heap w)"
  have "trace (Start_one w ctx rdy (Some s)) =
      trace w @ (onState_events w s Halted Starting @ [EvGoRun ?p])"
    using s by (simp add: Start_one_def newRunnerService_def starting_def Let_def
        onState_events_def)
  then have "quiet w (Start_one w ctx rdy (Some s))"
    by (rule quietI) (simp_all add: onState_events_def)
  with s show ?thesis by simp
qed

lemma quiet_Start_loop [simp]: "quiet w (Start_loop w ctx rdy svcs)"
proof (induction svcs arbitrary: w)
  case Nil
  show ?case by simp
next
  case (Cons svc svcs)
  show ?case using quiet_trans [OF quiet_Start_one Cons] by simp
qed

lemma quiet_Halt_one [simp]: "quiet (fst we) (fst (Halt_one we dn svc))"
proof (cases we)
  case (Pair w errs)
  show ?thesis
  proof (cases "lookup w svc")
    case None
    with Pair show ?thesis by (simp add: Halt_one_def)
  next
    case (Some p)
    with Pair quiet_halting [of w p dn] show ?thesis
      by (cases "halting w p dn") (auto simp: Halt_one_def split: option.splits)
  qed
qed

lemma quiet_Halt_loop [simp]: "quiet (fst we) (fst (Halt_loop we dn svcs))"
proof (induction svcs arbitrary: we)
  case Nil
  show ?case by simp
next
  case (Cons svc svcs)
  show ?case using quiet_trans [OF quiet_Halt_one Cons] by simp
qed

lemma notify_locks_quiet:
  assumes "EvLock \<notin> set xs" and "EvUnlock \<notin> set xs"
  shows "notify_locks h (xs @ ys) = replicate (length (notifications xs)) h @ notify_locks h ys"
  using assms by (induction h xs rule: notify_locks.induct) simp_all

text \<open>A critical section: lock, events without lock or unlock, unlock.\<close>

lemma section_under_lock:
  assumes "quiet v w'" and "trace v = trace w @ [EvLock]"
  shows "notify_locks False (new_events w (Unlock w')) =
           replicate (length (notifications (new_events w (Unlock w')))) True"
    and "hd (new_events w (Unlock w')) = EvLock" and "last (new_events w (Unlock w')) = EvUnlock"
proof -
  from assms(1) obtain xs where xs: "trace w' = trace v @ xs" "EvLock \<notin> set xs"
      "EvUnlock \<notin> set xs"
    by (rule quietE)
  with assms(2) have ne: "new_events w (Unlock w') = EvLock # xs @ [EvUnlock]"
    by (simp add: new_events_def)
  show "notify_locks False (new_events w (Unlock w')) =
           replicate (length (notifications (new_events w (Unlock w')))) True"
    using xs(2,3) by (simp add: ne notify_locks_quiet)
  show "hd (new_events w (Unlock w')) = EvLock" by (simp add: ne)
  show "last (new_events w (Unlock w')) = EvUnlock" by (simp add: ne)
qed

lemma Start_locked_as_section:
  "\<exists>v w'. fst (Start_locked w ctx svcs) = Unlock w' \<and> quiet v w' \<and> trace v = trace w @ [EvLock]"
proof (cases "rn_state w = RunnerEnabled")
  case False
  then have "fst (Start_locked w ctx svcs) = Unlock (Lock w)" by (simp add: Start_locked_def)
  moreover have "quiet (Lock w) (Lock w)" by simp
  moreover have "trace (Lock w) = trace w @ [EvLock]" by simp
  ultimately show ?thesis by blast
next
  case True
  let ?v = "fst (NewSignal (Lock w) (length svcs))"
  let ?w' = "Start_loop ?v ctx (length (signals w)) svcs"
  from True have "fst (Start_locked w ctx svcs) = Unlock ?w'"
    by (simp add: Start_locked_def Let_def split_beta)
  moreover have "quiet ?v ?w'" by simp
  moreover have "trace ?v = trace w @ [EvLock]" by simp
  ultimately show ?thesis by blast
qed

lemma Halt_locked_as_section:
  "\<exists>v w'. fst (Halt_locked w svcs) = Unlock w' \<and> quiet v w' \<and> trace v = trace w @ [EvLock]"
proof -
  let ?v = "Lock (fst (NewSignal w (length svcs)))"
  let ?w' = "fst (Halt_loop (?v, []) (length (signals w)) svcs)"
  have "fst (Halt_locked w svcs) = Unlock ?w'"
    by (simp add: Halt_locked_def Let_def split_beta)
  moreover have "quiet ?v ?w'" using quiet_Halt_loop [of "(?v, [])"] by simp
  moreover have "trace ?v = trace w @ [EvLock]" by simp
  ultimately show ?thesis by blast
qed

lemma ended_as_section:
  assumes "p < length (heap w)"
  shows "\<exists>w'. fst (ended w p err) = Unlock w' \<and> quiet (Lock w) w'"
proof -
  let ?w1 = "Lock w"
  let ?svc = "service (heap w ! p)"
  let ?w2 = "emit (?w1\<lparr>services := AList.delete ?svc (services ?w1)\<rparr>) (EvDelete ?svc)"
  let ?w3 = "emit ?w2 (EvRsLock p)"
  let ?w4 = "setState ?w3 p Ended"
  let ?w5 = "upd_rs ?w4 p (\<lambda>r. r\<lparr>rs_done := None\<rparr>)"
  let ?w6 = "if stage (heap ?w5 ! p) = StageReady then setReady ?w5 p err else ?w5"
  let ?herr = "if stage (heap ?w5 ! p) = StageReady then None else err"
  let ?w7 = "raiseOnEnded ?w6 (stage (heap ?w6 ! p)) (service (heap ?w6 ! p)) err"
  let ?w8 = "upd_rs ?w7 p (\<lambda>r. r\<lparr>readyCalled := False\<rparr>)"
  let ?w9 = "notify ?w8 (waiters (heap ?w8 ! p)) ?herr"
  let ?w10 = "upd_rs ?w9 p (\<lambda>r. r\<lparr>waiters := []\<rparr>)"
  let ?w11 = "emit ?w10 (EvRsUnlock p)"
  have eq: "fst (ended w p err) = Unlock ?w11" by (simp add: ended_def Let_def)
  have 2: "quiet ?w1 ?w2"
    by (rule quietI [where evs = "[EvDelete ?svc]"]) simp_all
  have 3: "quiet ?w2 ?w3" by (rule quiet_emit) simp_all
  have 6: "quiet ?w5 ?w6" by simp
  have 9: "quiet ?w8 ?w9" by (rule quiet_notify)
  have 11: "quiet ?w10 ?w11" by (rule quiet_emit) simp_all
  have "quiet ?w1 ?w11"
    by (rule quiet_trans [OF 2], rule quiet_trans [OF 3], rule quiet_trans [OF quiet_setState],
        rule quiet_trans [OF quiet_upd_rs], rule quiet_trans [OF 6],
        rule quiet_trans [OF quiet_raiseOnEnded], rule quiet_trans [OF quiet_upd_rs],
        rule quiet_trans [OF 9], rule quiet_trans [OF quiet_upd_rs], rule 11)
  with eq show ?thesis by blast
qed

subsection \<open>Start keeps what is registered\<close>

lemma Start_one_prefix:
  "prefix (services w) (services (Start_one w ctx rdy svc))"
  "prefix (heap w) (heap (Start_one w ctx rdy svc))"
proof -
  show "prefix (services w) (services (Start_one w ctx rdy svc))"
  proof (cases "svc = None \<or> Runnable (descriptors w ! the svc) = None \<or> map_of (services w) (the svc) \<noteq> None")
    case True
    then show ?thesis by (simp add: Start_one_old)
  next
    case False
    then obtain s where "svc = Some s" "Runnable (descriptors w ! s) \<noteq> None" "map_of (services w) s = None"
      by (cases svc) auto
    then show ?thesis by (simp add: Start_one_new)
  qed
  show "prefix (heap w) (heap (Start_one w ctx rdy svc))"
  proof (cases "svc = None \<or> Runnable (descriptors w ! the svc) = None \<or> map_of (services w) (the svc) \<noteq> None")
    case True
    then show ?thesis by (simp add: Start_one_old)
  next
    case False
    then obtain s where "svc = Some s" "Runnable (descriptors w ! s) \<noteq> None" "map_of (services w) s = None"
      by (cases svc) auto
    then show ?thesis by (simp add: Start_one_new)
  qed
qed

lemma Start_loop_prefix:
  "prefix (services w) (services (Start_loop w ctx rdy svcs)) \<and>
   prefix (heap w) (heap (Start_loop w ctx rdy svcs))"
proof (induction svcs arbitrary: w)
  case Nil
  show ?case by simp
next
  case (Cons svc svcs)
  let ?w1 = "Start_one w ctx rdy svc"
  from Cons [of ?w1] have 1: "prefix (services ?w1) (services (Start_loop ?w1 ctx rdy svcs))"
    and 2: "prefix (heap ?w1) (heap (Start_loop ?w1 ctx rdy svcs))" by simp_all
  have "prefix (services w) (services (Start_loop ?w1 ctx rdy svcs))"
    using Start_one_prefix(1) 1 by (rule prefix_order.trans)
  moreover have "prefix (heap w) (heap (Start_loop ?w1 ctx rdy svcs))"
    using Start_one_prefix(2) 2 by (rule prefix_order.trans)
  ultimately show ?case by simp
qed

lemma map_of_prefix:
  assumes "prefix xs ys" and "map_of xs k = Some v"
  shows "map_of ys k = Some v"
  using assms by (auto simp: prefix_def)

lemma nth_prefix:
  assumes "prefix xs ys" and "i < length xs"
  shows "ys ! i = xs ! i"
  using assms by (auto simp: prefix_def nth_append)

lemma new_events_trans:
  assumes "quiet w w1" and "quiet w1 w2"
  shows "new_events w w2 = new_events w w1 @ new_events w1 w2"
proof -
  from assms(1) obtain xs where xs: "trace w1 = trace w @ xs" "new_events w w1 = xs"
    by (rule quietE)
  from assms(2) obtain ys where ys: "trace w2 = trace w1 @ ys" "new_events w1 w2 = ys"
    by (rule quietE)
  from xs ys show ?thesis by (simp add: new_events_def)
qed

lemma notifications_mem: "(s, e) \<in> set (notifications evs) \<longleftrightarrow> EvDone s e \<in> set evs"
  by (induction evs rule: notifications.induct) auto

text \<open>A registered descriptor in the loop of Start gets "service already running".\<close>

lemma Start_loop_already_running:
  assumes "Some D \<in> set svcs" and "map_of (services w) D = Some p"
    and "Runnable (descriptors w ! D) \<noteq> None"
  shows "EvDone rdy (Some errAlreadyRunning) \<in> set (new_events w (Start_loop w ctx rdy svcs))"
  using assms
proof (induction svcs arbitrary: w)
  case Nil
  then show ?case by simp
next
  case (Cons svc svcs)
  let ?w1 = "Start_one w ctx rdy svc"
  have split: "new_events w (Start_loop ?w1 ctx rdy svcs)
      = new_events w ?w1 @ new_events ?w1 (Start_loop ?w1 ctx rdy svcs)"
    by (rule new_events_trans) simp_all
  show ?case
  proof (cases "svc = Some D")
    case True
    with Cons.prems(2,3) have "?w1 = Done w rdy (Some errAlreadyRunning)"
      by (auto simp: Start_one_def)
    then have "new_events w ?w1 = [EvDone rdy (Some errAlreadyRunning)]"
      by (simp add: new_events_def)
    with split show ?thesis by simp
  next
    case False
    with Cons.prems(1) have in_rest: "Some D \<in> set svcs" by auto
    have reg: "map_of (services ?w1) D = Some p"
      using Start_one_prefix(1) Cons.prems(2) by (rule map_of_prefix)
    have rn: "Runnable (descriptors ?w1 ! D) \<noteq> None" using Cons.prems(3) by simp
    from Cons.IH [OF in_rest reg rn] split show ?thesis by simp
  qed
qed

text \<open>A descriptor without Runnable in the loop of Start gets nil, registered or not.\<close>

lemma Start_loop_no_Runnable:
  assumes "Some D \<in> set svcs" and "Runnable (descriptors w ! D) = None"
  shows "EvDone rdy None \<in> set (new_events w (Start_loop w ctx rdy svcs))"
  using assms
proof (induction svcs arbitrary: w)
  case Nil
  then show ?case by simp
next
  case (Cons svc svcs)
  let ?w1 = "Start_one w ctx rdy svc"
  have split: "new_events w (Start_loop ?w1 ctx rdy svcs)
      = new_events w ?w1 @ new_events ?w1 (Start_loop ?w1 ctx rdy svcs)"
    by (rule new_events_trans) simp_all
  show ?case
  proof (cases "svc = Some D")
    case True
    with Cons.prems(2) have "?w1 = Done w rdy None"
      by (simp add: Start_one_def)
    then have "new_events w ?w1 = [EvDone rdy None]"
      by (simp add: new_events_def)
    with split show ?thesis by simp
  next
    case False
    with Cons.prems(1) have in_rest: "Some D \<in> set svcs" by auto
    have rn: "Runnable (descriptors ?w1 ! D) = None" using Cons.prems(2) by simp
    from Cons.IH [OF in_rest rn] split show ?thesis by simp
  qed
qed

lemma world_suspended_eq:
  "world_suspended = \<lparr>onEnd = False, onError = False, onState = False, nextID = 1,
    services = [(svcA, 0)], rn_state = RunnerSuspended,
    heap = [\<lparr>rs_id = 1, service = svcA, ready = None, stage = StageRun, state = Started,
          waiters = [], rs_done = Some Open, readyCalled = True\<rparr>],
    signals = [\<lparr>cap = 1, slots = [None]\<rparr>],
    descriptors = two_descriptors,
    trace = [EvLock, EvGoRun 0, EvUnlock, EvDone 0 None, EvLock, EvUnlock]\<rparr>"
  by code_simp

lemma wf_world_started: "well_formed world_started"
  unfolding world_started_def world_starting_def
  by (intro wf_run wf_Start_locked wf_world_new)

lemma wf_world_no_Runnable: "well_formed world_no_Runnable"
proof -
  have "well_formed world_no_Runnable = well_formed world_started"
    by (rule wf_frame) (simp_all add: world_no_Runnable_def)
  with wf_world_started show ?thesis by simp
qed

lemma wf_world_suspended: "well_formed world_suspended"
proof -
  have "well_formed world_suspended = well_formed world_started"
    by (rule wf_frame) (simp_all add: world_suspended_eq world_started_eq)
  with wf_world_started show ?thesis by simp
qed

lemma suspended_registered: "map_of (services world_suspended) svcA = Some 0"
  by (simp add: world_suspended_eq)

lemma suspended_Start: "Start world_suspended None [Some svcA] [] ViaSignal
     = Some (Unlock (Lock world_suspended), Some errNotEnabled)"
  by (simp add: Start_def Start_locked_def world_suspended_eq)

lemma suspended_no_notification: "notifications (new_events world_suspended (fst (Start_locked world_suspended None [Some svcA]))) = []"
  by (simp add: Start_locked_def world_suspended_eq new_events_def)

subsection \<open>The Signal branch of the select\<close>

lemma set_slot_errors: "e \<in> set (slot_errors sg) \<longleftrightarrow> Some e \<in> set (slots sg)"
  by (auto simp: slot_errors_def split: option.splits)

lemma slot_errors_empty: "slot_errors sg = [] \<longleftrightarrow> (\<forall>e. Some e \<notin> set (slots sg))"
  using set_slot_errors [of _ sg] by (metis all_not_in_conv set_empty)

lemma Errors_Waiter:
  assumes "Waiter sg = Some err"
  shows "Errors err = slot_errors sg"
  using assms by (auto simp: Waiter_def split: if_splits)

lemma select_signal:
  assumes "select w sg errs ctx ViaSignal = Some r"
  shows "r = (if errs @ slot_errors (signals w ! sg) = [] then None
              else Some (serviceErrors (errs @ slot_errors (signals w ! sg))))"
proof -
  from assms obtain err where w: "Waiter (signals w ! sg) = Some err" and r: "r = aggregate errs err"
    by (auto simp: select_def split: option.splits)
  from Errors_Waiter [OF w] r show ?thesis by (simp add: aggregate_def Let_def)
qed

lemma Start_via_signal:
  assumes "svcs \<noteq> []" and "rn_state w = RunnerEnabled"
    and "Start w ctx svcs acts ViaSignal = Some (w', r)"
  shows "r = (if slot_errors (signals w' ! length (signals w)) = [] then None
              else Some (serviceErrors (slot_errors (signals w' ! length (signals w)))))"
proof -
  obtain w1 where sl: "Start_locked w ctx svcs = (w1, Inr (length (signals w)))"
    using Start_locked_enabled [OF assms(2), of ctx svcs]
    by (cases "Start_locked w ctx svcs") simp
  from assms(1,3) have "w' = run w1 acts"
    and "select (run w1 acts) (length (signals w)) [] ctx ViaSignal = Some r"
    by (auto simp: Start_def sl Let_def split: option.splits)
  with select_signal [of "run w1 acts" "length (signals w)" "[]" ctx r] show ?thesis by simp
qed

lemma Halt_locked_signal [simp]: "fst (snd (Halt_locked w svcs)) = length (signals w)"
  by (simp add: Halt_locked_def Let_def split_beta)

lemma Halt_via_signal:
  assumes "svcs \<noteq> []" and "Halt w ctx svcs acts ViaSignal = Some (w', r)"
  shows "r = (if snd (snd (Halt_locked w svcs)) @ slot_errors (signals w' ! length (signals w)) = []
              then None
              else Some (serviceErrors (snd (snd (Halt_locked w svcs)) @
                     slot_errors (signals w' ! length (signals w)))))"
proof -
  obtain w1 errs where hl: "Halt_locked w svcs = (w1, length (signals w), errs)"
    using Halt_locked_signal [of w svcs] by (cases "Halt_locked w svcs") auto
  from assms have "w' = run w1 acts"
    and "select (run w1 acts) (length (signals w)) errs ctx ViaSignal = Some r"
    by (auto simp: Halt_def hl Let_def split: option.splits)
  with select_signal [of "run w1 acts" "length (signals w)" errs ctx r] hl show ?thesis by simp
qed

lemma Start_two: "Start world_new None [Some svcA, Some svcB]
     [ActReady 0, ActEnded 1 (Some (Errorf ''boom''))] ViaSignal
   = Some (world_two, Some (serviceErrors [Errorf ''boom'']))"
  by code_simp

lemma world_two_slots: "slots (signals world_two ! 0) = [None, Some (Errorf ''boom'')]"
  by code_simp

lemma Halt_failing: "Halt world_started None [Some svcA] [ActEnded 0 (Some (Errorf ''boom''))] ViaSignal
   = Some (fst (ended world_halting 0 (Some (Errorf ''boom''))), Some (serviceErrors [Errorf ''boom'']))"
  by code_simp

lemma Halt_failing_slots:
  "slots (signals (fst (ended world_halting 0 (Some (Errorf ''boom'')))) ! 1) = [Some (Errorf ''boom'')]"
  by code_simp

subsection \<open>Signals that no record refers to\<close>

lemma complete_other: "r \<noteq> s \<Longrightarrow> complete ss r e ! s = ss ! s"
  by (simp add: complete_def)

lemma foldl_complete_other:
  "s \<notin> set ws \<Longrightarrow> foldl (\<lambda>sgs r. complete sgs r e) ss ws ! s = ss ! s"
  by (induction ws arbitrary: ss) (simp_all add: complete_other)

lemma Ready_heap_other: "q \<noteq> p \<Longrightarrow> heap (fst (Ready w p)) ! q = heap w ! q"
  by (simp add: Ready_def Let_def)

lemma Ready_heap_self:
  assumes "p < length (heap w)"
  shows "heap (fst (Ready w p)) ! p =
     (if readyCalled (heap w ! p) \<or> state (heap w ! p) \<noteq> Starting then heap w ! p
      else (heap w ! p)\<lparr>readyCalled := True, stage := StageRun, state := Started, ready := None\<rparr>)"
  using assms by (simp add: Ready_def Let_def)

lemma Ready_signal_other:
  assumes "p < length (heap w)" and "ready (heap w ! p) \<noteq> Some s"
  shows "signals (fst (Ready w p)) ! s = signals w ! s"
  using assms
  by (auto simp: Ready_def Let_def setReady_signals complete_other split: option.splits)

lemma ended_signal_other:
  assumes "p < length (heap w)" and "\<not> refers (heap w ! p) s"
  shows "signals (fst (ended w p err)) ! s = signals w ! s"
  using assms
  by (auto simp: ended_signals refers_def foldl_map foldl_complete_other complete_other
      split: option.splits)

lemma step_signal_other:
  assumes "\<not> refers (heap w ! target a) s"
  shows "signals (step w a) ! s = signals w ! s"
proof (cases a)
  case (ActReady p)
  with assms show ?thesis by (simp add: step_def running_def refers_def Ready_signal_other)
next
  case (ActEnded p err)
  with assms show ?thesis by (simp add: step_def running_def ended_signal_other)
qed

lemma step_heap_other: "q \<noteq> target a \<Longrightarrow> heap (step w a) ! q = heap w ! q"
  by (cases a) (simp_all add: step_def Ready_heap_other ended_heap_other)

lemma step_refers:
  assumes "q < length (heap w)" and "refers (heap (step w a) ! q) s"
  shows "refers (heap w ! q) s"
proof (cases "q = target a")
  case False
  with assms(2) show ?thesis by (simp add: step_heap_other)
next
  case True
  show ?thesis
  proof (cases a)
    case (ActReady p)
    with True assms show ?thesis
      by (auto simp: step_def refers_def Ready_heap_self split: if_splits)
  next
    case (ActEnded p err)
    with True assms show ?thesis
      by (auto simp: step_def refers_def ended_heap_self split: if_splits)
  qed
qed

lemma step_referenced: "referenced (step w a) s \<Longrightarrow> referenced w s"
  by (auto simp: referenced_def dest: step_refers)

lemma run_unreferenced:
  assumes "\<not> referenced w s"
  shows "signals (run w acts) ! s = signals w ! s"
  using assms
proof (induction acts arbitrary: w)
  case Nil
  show ?case by simp
next
  case (Cons a acts)
  have 1: "\<not> referenced (step w a) s" using Cons.prems step_referenced by blast
  have "\<not> refers (heap w ! target a) s \<or> \<not> target a < length (heap w)"
    using Cons.prems by (auto simp: referenced_def)
  then have 2: "signals (step w a) ! s = signals w ! s"
  proof
    assume "\<not> refers (heap w ! target a) s"
    then show ?thesis by (rule step_signal_other)
  next
    assume "\<not> target a < length (heap w)"
    then have "step w a = w" by (cases a) (simp_all add: step_def running_def)
    then show ?thesis by simp
  qed
  from Cons.IH [OF 1] 2 show ?case by simp
qed

lemma fresh_unreferenced:
  assumes "well_formed w" and "length (signals w) \<le> s"
  shows "\<not> referenced w s"
  using assms by (fastforce simp: well_formed_def signals_ok_def referenced_def refers_def)

lemma step_services_None:
  "map_of (services w) D = None \<Longrightarrow> map_of (services (step w a)) D = None"
  by (cases a) (auto simp: step_def delete_conv')

lemma run_services_None:
  "map_of (services w) D = None \<Longrightarrow> map_of (services (run w acts)) D = None"
  by (induction acts arbitrary: w) (simp_all add: step_services_None)


lemma Halt_one_unregistered:
  "lookup w D = None \<Longrightarrow> Halt_one (w, errs) dn D = (Done w dn None, errs)"
  by (simp add: Halt_one_def)

lemma lookup_frame: "services w' = services w \<Longrightarrow> lookup w' D = lookup w D"
  by (cases D) (simp_all add: lookup_def)

lemma Halt_loop_services [simp]: "services (fst (Halt_loop we dn svcs)) = services (fst we)"
  by (induction svcs arbitrary: we) simp_all

lemma Halt_loop_unregistered:
  assumes "D \<in> set svcs" and "lookup (fst we) D = None"
  shows "EvDone dn None \<in> set (new_events (fst we) (fst (Halt_loop we dn svcs)))"
  using assms
proof (induction svcs arbitrary: we)
  case Nil
  then show ?case by simp
next
  case (Cons svc svcs)
  let ?we1 = "Halt_one we dn svc"
  have split: "new_events (fst we) (fst (Halt_loop ?we1 dn svcs))
      = new_events (fst we) (fst ?we1) @ new_events (fst ?we1) (fst (Halt_loop ?we1 dn svcs))"
    by (rule new_events_trans) simp_all
  show ?case
  proof (cases "svc = D")
    case True
    with Cons.prems(2) have "?we1 = (Done (fst we) dn None, snd we)"
      using Halt_one_unregistered [of "fst we" D "snd we" dn] by simp
    then have "new_events (fst we) (fst ?we1) = [EvDone dn None]"
      by (simp add: new_events_def)
    with split show ?thesis by simp
  next
    case False
    with Cons.prems(1) have in_rest: "D \<in> set svcs" by auto
    have "lookup (fst ?we1) D = lookup (fst we) D" by (rule lookup_frame) simp
    with Cons.prems(2) have "lookup (fst ?we1) D = None" by simp
    from Cons.IH [OF in_rest this] split show ?thesis by simp
  qed
qed

lemma Halt_locked_unregistered:
  assumes "lookup w D = None"
  shows "Halt_locked w [D] =
     (Unlock (Done (Lock (fst (NewSignal w 1))) (length (signals w)) None), length (signals w), [])"
proof -
  have "lookup (Lock (fst (NewSignal w 1))) D = lookup w D" by (rule lookup_frame) simp
  with assms have "lookup (Lock (fst (NewSignal w 1))) D = None" by simp
  then show ?thesis
    by (simp add: Halt_locked_def Let_def split_beta Halt_one_def)
qed

subsection \<open>What the critical sections of Start and Halt leave\<close>

lemma launched_prefix:
  assumes "launched w D p" and "prefix (services w) (services w')" and "prefix (heap w) (heap w')"
  shows "launched w' D p"
proof -
  from assms(1) have m: "map_of (services w) D = Some p" and p: "p < length (heap w)"
    and st: "state (heap w ! p) = Starting" "rs_done (heap w ! p) = Some Open"
    by (simp_all add: launched_def)
  have "map_of (services w') D = Some p" using assms(2) m by (rule map_of_prefix)
  moreover have "heap w' ! p = heap w ! p" using assms(3) p by (rule nth_prefix)
  moreover have "p < length (heap w')" using assms(3) p by (auto simp: prefix_def)
  ultimately show ?thesis using st by (simp add: launched_def)
qed

lemma launched_Start_loop:
  "launched w D p \<Longrightarrow> launched (Start_loop w ctx rdy svcs) D p"
  using Start_loop_prefix [of w ctx rdy svcs] by (auto intro: launched_prefix)

lemma Start_one_launches:
  assumes "Runnable (descriptors w ! D) \<noteq> None" and "map_of (services w) D = None"
  shows "launched (Start_one w ctx rdy (Some D)) D (length (heap w))"
  using assms by (simp add: launched_def Start_one_new map_add_def)

lemma Start_one_other_unregistered:
  assumes "map_of (services w) D = None" and "svc \<noteq> Some D"
  shows "map_of (services (Start_one w ctx rdy svc)) D = None"
proof (cases "svc = None \<or> Runnable (descriptors w ! the svc) = None \<or> map_of (services w) (the svc) \<noteq> None")
  case True
  with assms(1) show ?thesis by (simp add: Start_one_old)
next
  case False
  then obtain s where s: "svc = Some s" "Runnable (descriptors w ! s) \<noteq> None" "map_of (services w) s = None"
    by (cases svc) auto
  with assms show ?thesis by (simp add: Start_one_new map_add_def)
qed

lemma Start_loop_launches:
  assumes "Some D \<in> set svcs" and "Runnable (descriptors w ! D) \<noteq> None" and "map_of (services w) D = None"
  shows "\<exists>p. launched (Start_loop w ctx rdy svcs) D p"
  using assms
proof (induction svcs arbitrary: w)
  case Nil
  then show ?case by simp
next
  case (Cons svc svcs)
  show ?case
  proof (cases "svc = Some D")
    case True
    have "launched (Start_one w ctx rdy (Some D)) D (length (heap w))"
      using Cons.prems(2,3) by (rule Start_one_launches)
    then have "launched (Start_loop (Start_one w ctx rdy (Some D)) ctx rdy svcs) D (length (heap w))"
      by (rule launched_Start_loop)
    with True show ?thesis by auto
  next
    case False
    with Cons.prems(1) have in_rest: "Some D \<in> set svcs" by auto
    have rn: "Runnable (descriptors (Start_one w ctx rdy svc) ! D) \<noteq> None"
      using Cons.prems(2) by simp
    have "map_of (services (Start_one w ctx rdy svc)) D = None"
      using Cons.prems(3) False by (rule Start_one_other_unregistered)
    from Cons.IH [OF in_rest rn this] show ?thesis by simp
  qed
qed

lemma halting_keeps_Halting:
  assumes "p < length (heap w)" and "state (heap w ! p) = Halting"
  shows "state (heap (fst (halting w q dn)) ! p) = Halting"
proof (cases "q = p")
  case True
  with assms show ?thesis by (simp add: halting_def)
next
  case False
  then have "heap (fst (halting w q dn)) ! p = heap w ! p" by (simp add: halting_heap_other)
  with assms show ?thesis by simp
qed

lemma Halt_one_length_heap [simp]:
  "length (heap (fst (Halt_one we dn svc))) = length (heap (fst we))"
proof (cases we)
  case (Pair w errs)
  show ?thesis
  proof (cases "lookup w svc")
    case None
    with Pair show ?thesis by (simp add: Halt_one_def)
  next
    case (Some p)
    with Pair halting_length_heap [of w p dn] show ?thesis
      by (cases "halting w p dn") (auto simp: Halt_one_def split: option.splits)
  qed
qed

lemma Halt_one_keeps_Halting:
  assumes "p < length (heap (fst we))" and "state (heap (fst we) ! p) = Halting"
  shows "state (heap (fst (Halt_one we dn svc)) ! p) = Halting"
proof (cases we)
  case (Pair w errs)
  show ?thesis
  proof (cases "lookup w svc")
    case None
    with Pair assms show ?thesis by (simp add: Halt_one_def)
  next
    case (Some q)
    with Pair assms halting_keeps_Halting [of p w q dn] show ?thesis
      by (cases "halting w q dn") (auto simp: Halt_one_def split: option.splits)
  qed
qed

lemma Halt_loop_keeps_Halting:
  assumes "p < length (heap (fst we))" and "state (heap (fst we) ! p) = Halting"
  shows "state (heap (fst (Halt_loop we dn svcs)) ! p) = Halting"
  using assms
proof (induction svcs arbitrary: we)
  case Nil
  then show ?case by simp
next
  case (Cons svc svcs)
  have 1: "p < length (heap (fst (Halt_one we dn svc)))" using Cons.prems(1) by simp
  have 2: "state (heap (fst (Halt_one we dn svc)) ! p) = Halting"
    using Cons.prems by (rule Halt_one_keeps_Halting)
  from Cons.IH [OF 1 2] show ?case by simp
qed

lemma Halt_one_running:
  assumes "running (fst we) p"
  shows "running (fst (Halt_one we dn svc)) p"
proof (cases we)
  case (Pair w errs)
  show ?thesis
  proof (cases "lookup w svc")
    case None
    with Pair assms show ?thesis by (simp add: Halt_one_def running_def)
  next
    case (Some q)
    with Pair assms halting_running [of w p q dn] show ?thesis
      by (cases "halting w q dn") (auto simp: Halt_one_def split: option.splits)
  qed
qed

lemma Halt_one_halts:
  assumes "lookup (fst we) svc = Some p" and "running (fst we) p"
  shows "state (heap (fst (Halt_one we dn svc)) ! p) = Halting"
proof (cases we)
  case (Pair w errs)
  with assms have "p < length (heap w)" "live (state (heap w ! p))" by (simp_all add: running_def)
  then have "state (heap (fst (halting w p dn)) ! p) = Halting" by (rule halting_state_self)
  with Pair assms(1) show ?thesis
    by (cases "halting w p dn") (auto simp: Halt_one_def split: option.splits)
qed

lemma Halt_loop_halts:
  assumes "Some D \<in> set svcs" and "map_of (services (fst we)) D = Some p" and "running (fst we) p"
  shows "state (heap (fst (Halt_loop we dn svcs)) ! p) = Halting"
  using assms
proof (induction svcs arbitrary: we)
  case Nil
  then show ?case by simp
next
  case (Cons svc svcs)
  let ?we1 = "Halt_one we dn svc"
  have len: "p < length (heap (fst ?we1))" using Cons.prems(3) by (simp add: running_def)
  show ?case
  proof (cases "svc = Some D")
    case True
    have "lookup (fst we) (Some D) = Some p" using Cons.prems(2) by (simp add: lookup_def)
    with True have "state (heap (fst ?we1) ! p) = Halting"
      using Cons.prems(3) by (simp add: Halt_one_halts)
    with len show ?thesis by (simp add: Halt_loop_keeps_Halting)
  next
    case False
    with Cons.prems(1) have in_rest: "Some D \<in> set svcs" by auto
    have 2: "map_of (services (fst ?we1)) D = Some p" using Cons.prems(2) by simp
    have 3: "running (fst ?we1) p" using Cons.prems(3) by (rule Halt_one_running)
    from Cons.IH [OF in_rest 2 3] show ?thesis by simp
  qed
qed

lemma Halt_loop_length_heap [simp]:
  "length (heap (fst (Halt_loop we dn svcs))) = length (heap (fst we))"
  by (induction svcs arbitrary: we) simp_all


lemma Start_via_ctx:
  assumes "svcs \<noteq> []" and "rn_state w = RunnerEnabled"
  shows "Start w ctx svcs acts ViaCtx =
     (case ctxDone ctx of
        None \<Rightarrow> None
      | Some e \<Rightarrow> Some (run (fst (Start_locked w ctx svcs)) acts, Some e))"
proof -
  obtain w1 where sl: "Start_locked w ctx svcs = (w1, Inr (length (signals w)))"
    using Start_locked_enabled [OF assms(2), of ctx svcs]
    by (cases "Start_locked w ctx svcs") simp
  with assms(1) show ?thesis
    by (simp add: Start_def select_def Let_def split: option.splits)
qed

lemma Halt_via_ctx:
  assumes "svcs \<noteq> []"
  shows "Halt w ctx svcs acts ViaCtx =
     (case ctxDone ctx of
        None \<Rightarrow> None
      | Some e \<Rightarrow> Some (run (fst (Halt_locked w svcs)) acts, Some e))"
proof -
  obtain w1 dn errs where hl: "Halt_locked w svcs = (w1, dn, errs)"
    by (cases "Halt_locked w svcs") auto
  with assms show ?thesis
    by (simp add: Halt_def select_def Let_def split: option.splits)
qed

lemma Start_locked_launches:
  assumes "rn_state w = RunnerEnabled" and "Some D \<in> set svcs"
    and "Runnable (descriptors w ! D) \<noteq> None" and "map_of (services w) D = None"
  shows "\<exists>p. launched (fst (Start_locked w ctx svcs)) D p"
proof -
  let ?v = "fst (NewSignal (Lock w) (length svcs))"
  have u: "map_of (services ?v) D = None" using assms(4) by simp
  have rn: "Runnable (descriptors ?v ! D) \<noteq> None" using assms(3) by simp
  from Start_loop_launches [OF assms(2) rn u]
  obtain p where "launched (Start_loop ?v ctx (length (signals w)) svcs) D p" by blast
  then have "launched (Unlock (Start_loop ?v ctx (length (signals w)) svcs)) D p"
    by (simp add: launched_def)
  with assms(1) show ?thesis by (auto simp: Start_locked_def Let_def split_beta)
qed

lemma Halt_locked_halts:
  assumes "well_formed w" and "Some D \<in> set svcs" and "map_of (services w) D = Some p"
  shows "map_of (services (fst (Halt_locked w svcs))) D = Some p"
    and "state (heap (fst (Halt_locked w svcs)) ! p) = Halting"
    and "running (fst (Halt_locked w svcs)) p"
proof -
  let ?v = "Lock (fst (NewSignal w (length svcs)))"
  let ?l = "fst (Halt_loop (?v, []) (length (signals w)) svcs)"
  have eq: "fst (Halt_locked w svcs) = Unlock ?l" by (simp add: Halt_locked_def Let_def split_beta)
  have "lookup w (Some D) = Some p" using assms(3) by (simp add: lookup_def)
  from lookup_in_heap(3) [OF assms(1) this] have r: "running ?v p" by (simp add: running_def)
  have m: "map_of (services (fst (?v, []))) D = Some p" using assms(3) by simp
  have "state (heap ?l ! p) = Halting"
    using assms(2) m by (rule Halt_loop_halts) (simp add: r)
  then show st: "state (heap (fst (Halt_locked w svcs)) ! p) = Halting" by (simp add: eq)
  show "map_of (services (fst (Halt_locked w svcs))) D = Some p" using assms(3) by (simp add: eq)
  from r have "p < length (heap (fst (Halt_locked w svcs)))" by (simp add: eq running_def)
  with st show "running (fst (Halt_locked w svcs)) p" by (simp add: running_def)
qed

lemma cancelled_Start_example:
  "Start world_new (Some (Some DeadlineExceeded)) [Some svcA] [] ViaCtx
     = Some (world_starting, Some DeadlineExceeded)"
  by code_simp

lemma cancelled_Halt_example:
  "Halt world_started (Some (Some DeadlineExceeded)) [Some svcA] [] ViaCtx
     = Some (world_halting, Some DeadlineExceeded)"
  by code_simp

subsection \<open>A Halt call that waits for one service\<close>

lemma step_ready:
  assumes "q < length (heap w)" and "ready (heap (step w a) ! q) = Some s"
  shows "ready (heap w ! q) = Some s"
proof (cases "q = target a")
  case False
  with assms(2) show ?thesis by (simp add: step_heap_other)
next
  case True
  show ?thesis
  proof (cases a)
    case (ActReady p)
    with True assms show ?thesis
      by (auto simp: step_def Ready_heap_self split: if_splits)
  next
    case (ActEnded p err)
    with True assms show ?thesis
      by (auto simp: step_def ended_heap_self split: if_splits)
  qed
qed

lemma registered_service:
  assumes "well_formed w" and "running w q"
  shows "map_of (services w) (service (heap w ! q)) = Some q"
proof -
  from assms have "registered w q"
    by (simp add: well_formed_def registry_inv_def running_def)
  then obtain D where D: "(D, q) \<in> set (services w)" by (auto simp: registered_def)
  with assms(1) have "service (heap w ! q) = D" and "distinct (map fst (services w))"
    by (auto simp: well_formed_def registry_ok_def)
  with D show ?thesis by simp
qed

lemma halt_pending_step:
  assumes wf: "well_formed w" and hp: "halt_pending w D p dn"
  shows "halt_pending (step w a) D p dn \<or> map_of (services (step w a)) D = None"
proof -
  from hp have m: "map_of (services w) D = Some p"
    and sg: "signals w ! dn = \<lparr>cap = 1, slots = []\<rparr>"
    and others: "\<And>q. q < length (heap w) \<Longrightarrow> q \<noteq> p \<Longrightarrow> \<not> refers (heap w ! q) dn"
    and rp: "ready (heap w ! p) \<noteq> Some dn"
    by (simp_all add: halt_pending_def)
  have "lookup w (Some D) = Some p" using m by (simp add: lookup_def)
  from lookup_in_heap [OF wf this] have p: "p < length (heap w)" and runp: "running w p"
    and svcp: "service (heap w ! p) = D" by simp_all
  have keep_others: "\<not> refers (heap (step w a) ! q) dn"
    if "q < length (heap w)" "q \<noteq> p" for q
    using others [OF that] step_refers [OF that(1)] by blast
  have keep_rp: "ready (heap (step w a) ! p) \<noteq> Some dn"
    using rp step_ready [OF p] by blast
  let ?q = "target a"
  show ?thesis
  proof (cases "running w ?q")
    case False
    then have "step w a = w" by (cases a) (simp_all add: step_def)
    with hp show ?thesis by simp
  next
    case True
    then have q: "?q < length (heap w)" by (simp add: running_def)
    show ?thesis
    proof (cases a)
      case (ActReady r)
      with True have st: "step w a = fst (Ready w r)" and r: "r = ?q" by (simp_all add: step_def)
      have "ready (heap w ! r) \<noteq> Some dn"
        using rp others [of r] q r by (cases "r = p") (auto simp: refers_def)
      with q r have "signals (step w a) ! dn = signals w ! dn"
        by (simp add: st Ready_signal_other)
      moreover have "services (step w a) = services w" by (simp add: st)
      ultimately have "halt_pending (step w a) D p dn"
        using m sg keep_others keep_rp by (simp add: halt_pending_def)
      then show ?thesis ..
    next
      case (ActEnded r err)
      with True have st: "step w a = fst (ended w r err)" and r: "r = ?q" by (simp_all add: step_def)
      show ?thesis
      proof (cases "r = p")
        case True
        with svcp have "map_of (services (step w a)) D = None"
          by (simp add: st delete_conv')
        then show ?thesis ..
      next
        case False
        have "map_of (services w) (service (heap w ! r)) = Some r"
          using wf \<open>running w ?q\<close> r by (simp add: registered_service)
        with m False have ne: "service (heap w ! r) \<noteq> D" by auto
        then have 1: "map_of (services (step w a)) D = Some p"
          using m by (simp add: st)
        have "\<not> refers (heap w ! r) dn" using others q r False by simp
        with q r have 2: "signals (step w a) ! dn = signals w ! dn"
          by (simp add: st ended_signal_other)
        from 1 2 sg keep_others keep_rp have "halt_pending (step w a) D p dn"
          by (simp add: halt_pending_def)
        then show ?thesis ..
      qed
    qed
  qed
qed

lemma halt_pending_run:
  assumes "well_formed w" and "halt_pending w D p dn"
  shows "halt_pending (run w acts) D p dn \<or> map_of (services (run w acts)) D = None"
  using assms
proof (induction acts arbitrary: w)
  case Nil
  then show ?case by simp
next
  case (Cons a acts)
  from halt_pending_step [OF Cons.prems, of a]
  show ?case
  proof
    assume "halt_pending (step w a) D p dn"
    with Cons.IH [OF wf_step [OF Cons.prems(1)]] show ?thesis by simp
  next
    assume "map_of (services (step w a)) D = None"
    then show ?thesis by (simp add: run_services_None)
  qed
qed

lemma halting_signal_other:
  assumes "p < length (heap w)" and "live (state (heap w ! p))"
    and "ready (heap w ! p) \<noteq> Some s"
  shows "signals (fst (halting w p dn)) ! s = signals w ! s"
  using assms
  by (auto simp: halting_def Let_def live_def setReady_signals complete_other split: option.splits)

lemma halting_ready:
  assumes "p < length (heap w)" and "ready (heap (fst (halting w p dn)) ! q) = Some s"
  shows "ready (heap w ! q) = Some s"
proof (cases "q = p")
  case False
  with assms show ?thesis by (simp add: halting_heap_other)
next
  case True
  with assms show ?thesis
    by (auto simp: halting_def Let_def split: if_splits)
qed


lemma Halt_locked_registered:
  assumes wf: "well_formed w" and m: "map_of (services w) D = Some p"
  shows "halt_pending (fst (Halt_locked w [Some D])) D p (length (signals w))"
proof -
  let ?dn = "length (signals w)"
  let ?v = "Lock (fst (NewSignal w 1))"
  let ?h = "fst (halting ?v p ?dn)"
  have "lookup w (Some D) = Some p" using m by (simp add: lookup_def)
  from lookup_in_heap [OF wf this] have p: "p < length (heap w)" and runp: "running w p"
    by simp_all
  then have lv: "live (state (heap ?v ! p))" and pv: "p < length (heap ?v)"
    by (simp_all add: running_def)
  have bound: "\<not> refers (heap w ! q) ?dn" if "q < length (heap w)" for q
    using fresh_unreferenced [OF wf, of ?dn] that by (auto simp: referenced_def)
  have rp: "ready (heap ?v ! p) \<noteq> Some ?dn" using bound [OF p] by (simp add: refers_def)
  have lk: "lookup ?v (Some D) = Some p" using m by (simp add: lookup_def)
  have eq: "fst (Halt_locked w [Some D]) = Unlock ?h"
    using lk by (cases "halting ?v p ?dn")
      (auto simp: Halt_locked_def Halt_one_def Let_def split_beta split: option.splits)
  have 1: "map_of (services (Unlock ?h)) D = Some p" using m by simp
  have "signals ?h ! ?dn = signals ?v ! ?dn" using pv lv rp by (rule halting_signal_other)
  then have 2: "signals (Unlock ?h) ! ?dn = \<lparr>cap = 1, slots = []\<rparr>" by simp
  have 3: "\<not> refers (heap (Unlock ?h) ! q) ?dn" if "q < length (heap (Unlock ?h))" "q \<noteq> p" for q
  proof -
    from that have "heap (Unlock ?h) ! q = heap w ! q" by (simp add: halting_heap_other)
    with bound [of q] that(1) show ?thesis by simp
  qed
  have 4: "ready (heap (Unlock ?h) ! p) \<noteq> Some ?dn"
    using halting_ready [OF pv, of ?dn p ?dn] rp by auto
  from 1 2 3 4 show ?thesis by (simp add: eq halt_pending_def)
qed

lemma Halt_locked_services: "services (fst (Halt_locked w svcs)) = services w"
  by (simp add: Halt_locked_def Let_def split_beta)

text \<open>After \<open>Halt(R, D)\<close> has returned nil, \<open>D\<close> is not registered.\<close>

lemma Halt_nil_unregisters:
  assumes wf: "well_formed w" and h: "Halt w ctx [Some D] acts br = Some (w', None)"
  shows "map_of (services w') D = None"
proof -
  let ?dn = "length (signals w)"
  obtain w1 errs where hl: "Halt_locked w [Some D] = (w1, ?dn, errs)"
    using Halt_locked_signal [of w "[Some D]"] by (cases "Halt_locked w [Some D]") auto
  then have w1: "w1 = fst (Halt_locked w [Some D])" by simp
  from h hl have w': "w' = run w1 acts" and sel: "select w' ?dn errs ctx br = Some None"
    by (auto simp: Halt_def Let_def split: option.splits)
  have wf1: "well_formed w1" unfolding w1 using wf by (rule wf_Halt_locked)
  show ?thesis
  proof (cases "map_of (services w) D")
    case None
    then have "map_of (services w1) D = None" unfolding w1 by (simp add: Halt_locked_services)
    then show ?thesis unfolding w' by (rule run_services_None)
  next
    case (Some p)
    have "halt_pending w1 D p ?dn" unfolding w1 using wf Some by (rule Halt_locked_registered)
    from halt_pending_run [OF wf1 this, of acts]
    show ?thesis
    proof
      assume "halt_pending (run w1 acts) D p ?dn"
      then have "Waiter (signals w' ! ?dn) = None"
        by (simp add: w' halt_pending_def Waiter_def)
      with sel have False by (auto simp: select_def ctxDone_def split: branch.splits option.splits)
      then show ?thesis ..
    next
      assume "map_of (services (run w1 acts)) D = None"
      then show ?thesis by (simp add: w')
    qed
  qed
qed

lemma Start_one_new_trace:
  assumes "Runnable (descriptors w ! s) \<noteq> None" and "map_of (services w) s = None"
  shows "trace (Start_one w ctx rdy (Some s)) =
           trace w @ onState_events w s Halted Starting @ [EvGoRun (length (heap w))]"
proof -
  from assms obtain y where y: "Runnable (descriptors w ! s) = Some y" by auto
  with assms(2) show ?thesis
    by (simp add: Start_one_def newRunnerService_def starting_def Let_def onState_events_def)
qed

text \<open>Start of one descriptor that is not registered: what it notifies, if anything.\<close>

lemma Start_locked_unregistered:
  assumes "map_of (services w) D = None"
  shows "notifications (new_events w (fst (Start_locked w ctx [Some D]))) =
           (if rn_state w = RunnerEnabled \<and> Runnable (descriptors w ! D) = None
            then [(length (signals w), None)] else [])"
proof (cases "rn_state w = RunnerEnabled")
  case False
  then show ?thesis by (simp add: Start_locked_def new_events_def)
next
  case True
  let ?v = "fst (NewSignal (Lock w) 1)"
  have eq: "fst (Start_locked w ctx [Some D]) = Unlock (Start_one ?v ctx (length (signals w)) (Some D))"
    using True by (simp add: Start_locked_def Let_def split_beta)
  show ?thesis
  proof (cases "Runnable (descriptors w ! D) = None")
    case True
    then have "Start_one ?v ctx (length (signals w)) (Some D) = Done ?v (length (signals w)) None"
      by (simp add: Start_one_def)
    with \<open>rn_state w = RunnerEnabled\<close> True show ?thesis by (simp add: eq new_events_def)
  next
    case False
    have u: "map_of (services ?v) D = None" using assms by simp
    have rn: "Runnable (descriptors ?v ! D) \<noteq> None" using False by simp
    from Start_one_new_trace [OF rn u, of ctx "length (signals w)"] False
    show ?thesis by (simp add: eq new_events_def)
  qed
qed

lemma Ready_signals:
  assumes "p < length (heap w)"
  shows "signals (fst (Ready w p)) =
     (if readyCalled (heap w ! p) \<or> state (heap w ! p) \<noteq> Starting then signals w
      else case ready (heap w ! p) of None \<Rightarrow> signals w | Some r \<Rightarrow> complete (signals w) r None)"
  using assms by (simp add: Ready_def Let_def setReady_signals split: option.splits)

text \<open>
  Start of one descriptor that is not registered, on an Enabled runner: when the task
  calls Ready, Start returns nil.
\<close>

lemma Start_unregistered_succeeds:
  assumes "map_of (services w) D = None" and "rn_state w = RunnerEnabled"
    and "Runnable (descriptors w ! D) \<noteq> None"
  shows "Start w ctx [Some D] [ActReady (length (heap w))] ViaSignal =
     Some (step (fst (Start_locked w ctx [Some D])) (ActReady (length (heap w))), None)"
proof -
  let ?rdy = "length (signals w)"
  let ?p = "length (heap w)"
  let ?v = "fst (NewSignal (Lock w) 1)"
  let ?w1 = "Unlock (Start_one ?v ctx ?rdy (Some D))"
  have sl: "Start_locked w ctx [Some D] = (?w1, Inr ?rdy)"
    using assms(2) by (simp add: Start_locked_def Let_def split_beta)
  have u: "map_of (services ?v) D = None" using assms(1) by simp
  have rn: "Runnable (descriptors ?v ! D) \<noteq> None" using assms(3) by simp
  note n = Start_one_new [OF rn u, of ctx ?rdy]
  have hp: "heap ?w1 ! ?p = \<lparr>rs_id = nextID w + 1, service = D, ready = Some ?rdy,
       stage = StageReady, state = Starting, waiters = [], rs_done = Some Open,
       readyCalled = False\<rparr>"
    by (simp add: n(2) del: One_nat_def)
  have len: "?p < length (heap ?w1)" by (simp add: n(2) del: One_nat_def)
  have run: "running ?w1 ?p" using len hp by (simp add: running_def del: One_nat_def)
  have "signals (fst (Ready ?w1 ?p)) = complete (signals ?w1) ?rdy None"
    using hp by (simp add: Ready_signals [OF len] del: One_nat_def)
  also have "signals ?w1 = signals w @ [\<lparr>cap = 1, slots = []\<rparr>]"
    by (simp add: n(3) del: One_nat_def)
  finally have "signals (fst (Ready ?w1 ?p)) ! ?rdy = \<lparr>cap = 1, slots = [None]\<rparr>"
    by (simp add: complete_def del: One_nat_def)
  then have "Waiter (signals (step ?w1 (ActReady ?p)) ! ?rdy) = Some None"
    using run by (simp add: step_def Waiter_def slot_errors_def del: One_nat_def)
  then show ?thesis
    by (simp add: Start_def sl select_def aggregate_def del: Unlock_fields One_nat_def)
qed

lemma ended_removes_first:
  assumes "p < length (heap v)"
  shows "new_events v (fst (ended v p err)) =
           EvLock # EvDelete (service (heap v ! p)) # drop 2 (new_events v (fst (ended v p err)))"
    and "map_of (services (fst (ended v p err))) (service (heap v ! p)) = None"
proof -
  show "new_events v (fst (ended v p err)) =
           EvLock # EvDelete (service (heap v ! p)) # drop 2 (new_events v (fst (ended v p err)))"
    by (simp add: new_events_append [OF ended_trace [OF assms]])
  show "map_of (services (fst (ended v p err))) (service (heap v ! p)) = None"
    by (simp add: delete_conv')
qed

lemma world_ended_eq:
  "world_ended = \<lparr>onEnd = False, onError = False, onState = False, nextID = 1,
      services = [], rn_state = RunnerEnabled,
      heap = [\<lparr>rs_id = 1, service = svcA, ready = None, stage = StageRun, state = Ended,
            waiters = [], rs_done = None, readyCalled = False\<rparr>],
      signals = [\<lparr>cap = 1, slots = [None]\<rparr>, \<lparr>cap = 1, slots = [None]\<rparr>],
      descriptors = two_descriptors,
      trace = [EvLock, EvGoRun 0, EvUnlock, EvDone 0 None, EvLock, EvUnlock, EvLock,
               EvDelete svcA, EvRsLock 0, EvDone 1 None, EvRsUnlock 0, EvUnlock]\<rparr>"
  by code_simp

lemma Halt_started_example:
  "Halt world_started None [Some svcA] [ActEnded 0 None] ViaSignal = Some (world_ended, None)"
  by code_simp

subsection \<open>What State reads\<close>


lemma lookup_Lock [simp]: "lookup (Lock w) D = lookup w D"
  by (rule lookup_frame) simp

lemma State_unregistered: "lookup w D = None \<Longrightarrow> snd (State w D acts) = Halted"
  by (simp add: State_def Let_def)











section \<open>Claims\<close>

text \<open>
  C1. The end path of a record routes the error \<open>err\<close> of its worker by the stage.
  While the stage is StageReady, \<open>err\<close> goes to the Signal of the Start call that
  still waits for the service (if there is one) and every waiter gets nil; when the
  stage is StageRun, every waiter gets \<open>err\<close> and nothing else is notified. The
  Signals change by exactly these completions, in this order, and the record is left
  with no waiters.
\<close>

theorem ended_routes_error_by_stage:
  assumes "p < length (heap w)"
  shows "(stage (heap w ! p) = StageReady \<longrightarrow>
            notifications (new_events w (fst (ended w p err))) =
              (case ready (heap w ! p) of None \<Rightarrow> [] | Some r \<Rightarrow> [(r, err)]) @
              map (\<lambda>s. (s, None)) (waiters (heap w ! p))) \<and>
         (stage (heap w ! p) = StageRun \<longrightarrow>
            notifications (new_events w (fst (ended w p err))) =
              map (\<lambda>s. (s, err)) (waiters (heap w ! p))) \<and>
         signals (fst (ended w p err)) =
           foldl (\<lambda>sgs (s, e). complete sgs s e) (signals w)
             (notifications (new_events w (fst (ended w p err)))) \<and>
         waiters (heap (fst (ended w p err)) ! p) = [] \<and>
         ready (heap (fst (ended w p err)) ! p) =
           (if stage (heap w ! p) = StageReady then None else ready (heap w ! p))"
proof -
  have 1: "waiters (heap (fst (ended w p err)) ! p) = []"
    and 2: "ready (heap (fst (ended w p err)) ! p) =
           (if stage (heap w ! p) = StageReady then None else ready (heap w ! p))"
    using ended_heap_self [OF assms, of err] by simp_all
  have 3: "signals (fst (ended w p err)) =
           foldl (\<lambda>sgs (s, e). complete sgs s e) (signals w)
             (notifications (new_events w (fst (ended w p err))))"
    using ended_signals [OF assms, of err] ended_notifications [OF assms, of err] by simp
  from 1 2 3 ended_notifications [OF assms, of err] show ?thesis by simp
qed

theorem ended_routes_error_witness:
  "0 < length (heap world_starting) \<and> stage (heap world_starting ! 0) = StageReady \<and>
   notifications (new_events world_starting (fst (ended world_starting 0 (Some (Errorf ''boom'')))))
     = [(0, Some (Errorf ''boom''))] \<and>
   slots (signals (fst (ended world_starting 0 (Some (Errorf ''boom'')))) ! 0)
     = [Some (Errorf ''boom'')] \<and>
   0 < length (heap world_halted_early) \<and> stage (heap world_halted_early ! 0) = StageReady \<and>
   notifications (new_events world_halted_early
       (fst (ended world_halted_early 0 (Some (Errorf ''boom''))))) = [(1, None)] \<and>
   0 < length (heap world_halting) \<and> stage (heap world_halting ! 0) = StageRun \<and>
   notifications (new_events world_halting (fst (ended world_halting 0 (Some (Errorf ''boom'')))))
     = [(1, Some (Errorf ''boom''))] \<and>
   slots (signals (fst (ended world_halting 0 (Some (Errorf ''boom'')))) ! 1)
     = [Some (Errorf ''boom'')]"
proof -
  have a: "0 < length (heap world_starting)" by (simp add: world_starting_eq)
  have b: "0 < length (heap world_halting)" by (simp add: world_halting_eq)
  have sa: "stage (heap world_starting ! 0) = StageReady"
    and ra: "ready (heap world_starting ! 0) = Some 0"
    and wa: "waiters (heap world_starting ! 0) = []"
    and ga: "signals world_starting = [\<lparr>cap = 1, slots = []\<rparr>]"
    by (simp_all add: world_starting_eq)
  have sb: "stage (heap world_halting ! 0) = StageRun"
    and wb: "waiters (heap world_halting ! 0) = [1]"
    and gb: "signals world_halting = [\<lparr>cap = 1, slots = [None]\<rparr>, \<lparr>cap = 1, slots = []\<rparr>]"
    by (simp_all add: world_halting_eq)
  have c: "0 < length (heap world_halted_early)" by (simp add: world_halted_early_eq)
  have sc: "stage (heap world_halted_early ! 0) = StageReady"
    and rc: "ready (heap world_halted_early ! 0) = None"
    and wc: "waiters (heap world_halted_early ! 0) = [1]"
    by (simp_all add: world_halted_early_eq)
  note C = ended_routes_error_by_stage [OF c, of "Some (Errorf ''boom'')"]
  from C sc rc wc have C1:
    "notifications (new_events world_halted_early
       (fst (ended world_halted_early 0 (Some (Errorf ''boom''))))) = [(1, None)]" by simp
  note A = ended_routes_error_by_stage [OF a, of "Some (Errorf ''boom'')"]
  note B = ended_routes_error_by_stage [OF b, of "Some (Errorf ''boom'')"]
  from A sa ra wa have A1:
    "notifications (new_events world_starting (fst (ended world_starting 0 (Some (Errorf ''boom'')))))
       = [(0, Some (Errorf ''boom''))]" by simp
  from A A1 ga have A2:
    "slots (signals (fst (ended world_starting 0 (Some (Errorf ''boom'')))) ! 0)
       = [Some (Errorf ''boom'')]" by (simp add: complete_def)
  from B sb wb have B1:
    "notifications (new_events world_halting (fst (ended world_halting 0 (Some (Errorf ''boom'')))))
       = [(1, Some (Errorf ''boom''))]" by simp
  from B B1 gb have B2:
    "slots (signals (fst (ended world_halting 0 (Some (Errorf ''boom'')))) ! 1)
       = [Some (Errorf ''boom'')]" by (simp add: complete_def)
  from a b c sa sb sc A1 A2 B1 B2 C1 show ?thesis by (intro conjI)
qed

text \<open>
  C2. If \<open>Halt(R, D)\<close> returns nil from a well-formed world in which, while the
  caller was blocked, only workers took steps, then \<open>D\<close> is no longer registered and
  \<open>State\<close> gives Halted. A Start of \<open>D\<close> that follows does not complete its slot
  with "service already running": its critical section notifies nothing, or nil for
  a descriptor without Runnable; on an Enabled runner it registers \<open>D\<close> afresh and,
  once the task calls Ready, returns nil. On the end path the descriptor is removed
  from the registry first thing under the lock: every notification comes after the
  removal.
\<close>

theorem Halt_then_Start:
  assumes "well_formed w" and "Halt w ctx [Some D] acts br = Some (w', None)"
  shows "map_of (services w') D = None \<and> snd (State w' (Some D) acts') = Halted \<and>
         notifications (new_events w' (fst (Start_locked w' ctx' [Some D]))) =
           (if rn_state w' = RunnerEnabled \<and> Runnable (descriptors w' ! D) = None
            then [(length (signals w'), None)] else []) \<and>
         (rn_state w' = RunnerEnabled \<longrightarrow> Runnable (descriptors w' ! D) \<noteq> None \<longrightarrow>
            Start w' ctx' [Some D] [ActReady (length (heap w'))] ViaSignal =
              Some (step (fst (Start_locked w' ctx' [Some D])) (ActReady (length (heap w'))),
                    None)) \<and>
         (p < length (heap v) \<longrightarrow>
            new_events v (fst (ended v p err)) =
              EvLock # EvDelete (service (heap v ! p)) #
                drop 2 (new_events v (fst (ended v p err))) \<and>
            map_of (services (fst (ended v p err))) (service (heap v ! p)) = None)"
proof -
  have 1: "map_of (services w') D = None" using assms by (rule Halt_nil_unregisters)
  then have 2: "snd (State w' (Some D) acts') = Halted" by (simp add: State_unregistered lookup_def)
  note 3 = Start_locked_unregistered [OF 1, of ctx']
  have 4: "rn_state w' = RunnerEnabled \<longrightarrow> Runnable (descriptors w' ! D) \<noteq> None \<longrightarrow>
            Start w' ctx' [Some D] [ActReady (length (heap w'))] ViaSignal =
              Some (step (fst (Start_locked w' ctx' [Some D])) (ActReady (length (heap w'))),
                    None)"
    using Start_unregistered_succeeds [OF 1, of ctx'] by blast
  have 5: "p < length (heap v) \<longrightarrow>
            new_events v (fst (ended v p err)) =
              EvLock # EvDelete (service (heap v ! p)) #
                drop 2 (new_events v (fst (ended v p err))) \<and>
            map_of (services (fst (ended v p err))) (service (heap v ! p)) = None"
    using ended_removes_first [of p v err] by blast
  from 1 2 3 4 5 show ?thesis by (intro conjI)
qed

theorem Halt_then_Start_witness:
  "well_formed world_started \<and>
   Halt world_started None [Some svcA] [ActEnded 0 None] ViaSignal = Some (world_ended, None) \<and>
   map_of (services world_ended) svcA = None \<and> snd (State world_ended (Some svcA) []) = Halted \<and>
   rn_state world_ended = RunnerEnabled \<and> Runnable (descriptors world_ended ! svcA) \<noteq> None \<and>
   notifications (new_events world_ended (fst (Start_locked world_ended None [Some svcA]))) = [] \<and>
   Start world_ended None [Some svcA] [ActReady 1] ViaSignal
     = Some (step (fst (Start_locked world_ended None [Some svcA])) (ActReady 1), None) \<and>
   snd (State (step (fst (Start_locked world_ended None [Some svcA])) (ActReady 1)) (Some svcA) [])
     = Started \<and>
   0 < length (heap world_halting) \<and>
   new_events world_halting (fst (ended world_halting 0 None))
     = [EvLock, EvDelete svcA, EvRsLock 0, EvDone 1 None, EvRsUnlock 0, EvUnlock]"
proof -
  have en: "rn_state world_ended = RunnerEnabled" by (simp add: world_ended_eq)
  have rn: "Runnable (descriptors world_ended ! svcA) \<noteq> None" by code_simp
  have l: "length (heap world_ended) = 1" by (simp add: world_ended_eq)
  have h: "0 < length (heap world_halting)" by (simp add: world_halting_eq)
  have st: "snd (State (step (fst (Start_locked world_ended None [Some svcA])) (ActReady 1))
      (Some svcA) []) = Started"
    by code_simp
  have ev: "new_events world_halting (fst (ended world_halting 0 None))
     = [EvLock, EvDelete svcA, EvRsLock 0, EvDone 1 None, EvRsUnlock 0, EvUnlock]"
    by code_simp
  note T = Halt_then_Start [OF wf_world_started Halt_started_example, where ctx' = None
      and acts' = "[]" and p = 0 and v = world_halting and err = None]
  from T have 1: "map_of (services world_ended) svcA = None"
    and 2: "snd (State world_ended (Some svcA) []) = Halted" by blast+
  from T en rn have 3:
    "notifications (new_events world_ended (fst (Start_locked world_ended None [Some svcA]))) = []"
    by simp
  from T en rn have 4: "Start world_ended None [Some svcA] [ActReady 1] ViaSignal
     = Some (step (fst (Start_locked world_ended None [Some svcA])) (ActReady 1), None)"
    unfolding l by blast
  from wf_world_started Halt_started_example 1 2 en rn 3 4 st h ev
  show ?thesis by (intro conjI)
qed

text \<open>
  C3, as amended. After a Shutdown call that returned, the runner is in RunnerShutdown.
  A runner in RunnerShutdown answers every Start call that names at least one service,
  and every Shutdown call, with "runner is not enabled"; Start, Halt, Suspend, Shutdown
  and the steps of the workers leave it in RunnerShutdown. Enable makes any runner
  Enabled, and the critical section of Start then goes on to its Signal.
\<close>

theorem shutdown_closes_runner_until_Enable:
  assumes "Shutdown w ctx acts br = Some (Inr (w', r))"
  shows "rn_state w' = RunnerShutdown \<and>
    (rn_state v = RunnerShutdown \<longrightarrow>
       (svcs \<noteq> [] \<longrightarrow>
           Start v ctx' svcs acts' br' = Some (Unlock (Lock v), Some errNotEnabled)) \<and>
       Shutdown v ctx' acts' br' = Some (Inr (Unlock (Lock v), Some errNotEnabled)) \<and>
       rn_state (Unlock (Lock v)) = RunnerShutdown \<and>
       (Start v ctx' svcs acts' br' = Some (v', r') \<longrightarrow> rn_state v' = RunnerShutdown) \<and>
       (Halt v ctx' svcs acts' br' = Some (v', r') \<longrightarrow> rn_state v' = RunnerShutdown) \<and>
       Suspend v = (Unlock (Lock v), Some errNotEnabled) \<and>
       rn_state (run v acts') = RunnerShutdown) \<and>
    rn_state (fst (Enable u)) = RunnerEnabled \<and> snd (Enable u) = None \<and>
    snd (Start_locked (fst (Enable u)) ctx' svcs) = Inr (length (signals u))"
proof -
  have 1: "rn_state w' = RunnerShutdown"
    using assms by (rule Shutdown_returns_shut_down)
  have 2: "rn_state v = RunnerShutdown \<longrightarrow>
       (svcs \<noteq> [] \<longrightarrow>
           Start v ctx' svcs acts' br' = Some (Unlock (Lock v), Some errNotEnabled)) \<and>
       Shutdown v ctx' acts' br' = Some (Inr (Unlock (Lock v), Some errNotEnabled)) \<and>
       rn_state (Unlock (Lock v)) = RunnerShutdown \<and>
       (Start v ctx' svcs acts' br' = Some (v', r') \<longrightarrow> rn_state v' = RunnerShutdown) \<and>
       (Halt v ctx' svcs acts' br' = Some (v', r') \<longrightarrow> rn_state v' = RunnerShutdown) \<and>
       Suspend v = (Unlock (Lock v), Some errNotEnabled) \<and>
       rn_state (run v acts') = RunnerShutdown"
  proof
    assume sd: "rn_state v = RunnerShutdown"
    then have a: "svcs \<noteq> [] \<longrightarrow>
           Start v ctx' svcs acts' br' = Some (Unlock (Lock v), Some errNotEnabled)"
      by (simp add: Start_not_enabled)
    from sd have b: "Shutdown v ctx' acts' br' = Some (Inr (Unlock (Lock v), Some errNotEnabled))"
      by (rule Shutdown_not_enabled)
    from sd have c: "rn_state (Unlock (Lock v)) = RunnerShutdown" by simp
    from sd have d: "Start v ctx' svcs acts' br' = Some (v', r') \<longrightarrow> rn_state v' = RunnerShutdown"
      using Start_rn_state [of v ctx' svcs acts' br' v' r'] by simp
    from sd have e: "Halt v ctx' svcs acts' br' = Some (v', r') \<longrightarrow> rn_state v' = RunnerShutdown"
      using Halt_rn_state [of v ctx' svcs acts' br' v' r'] by simp
    from sd have f: "Suspend v = (Unlock (Lock v), Some errNotEnabled)"
      by (rule Suspend_shut_down)
    from sd have g: "rn_state (run v acts') = RunnerShutdown" by simp
    from a b c d e f g show "(svcs \<noteq> [] \<longrightarrow>
           Start v ctx' svcs acts' br' = Some (Unlock (Lock v), Some errNotEnabled)) \<and>
       Shutdown v ctx' acts' br' = Some (Inr (Unlock (Lock v), Some errNotEnabled)) \<and>
       rn_state (Unlock (Lock v)) = RunnerShutdown \<and>
       (Start v ctx' svcs acts' br' = Some (v', r') \<longrightarrow> rn_state v' = RunnerShutdown) \<and>
       (Halt v ctx' svcs acts' br' = Some (v', r') \<longrightarrow> rn_state v' = RunnerShutdown) \<and>
       Suspend v = (Unlock (Lock v), Some errNotEnabled) \<and>
       rn_state (run v acts') = RunnerShutdown"
      by (intro conjI)
  qed
  have "signals (fst (Enable u)) = signals u" by (simp add: Enable_def)
  then have 3: "snd (Start_locked (fst (Enable u)) ctx' svcs) = Inr (length (signals u))"
    using Start_locked_enabled [of "fst (Enable u)" ctx' svcs] by (simp add: Enable_enabled)
  from 1 2 3 Enable_enabled [of u] show ?thesis by (intro conjI) simp_all
qed

theorem shutdown_closes_runner_witness:
  "Shutdown world_new None [] ViaSignal = Some (Inr (shut_down, None)) \<and>
   rn_state shut_down = RunnerShutdown \<and>
   Start shut_down None [Some svcA] [] ViaSignal
     = Some (Unlock (Lock shut_down), Some errNotEnabled) \<and>
   Shutdown shut_down None [] ViaSignal
     = Some (Inr (Unlock (Lock shut_down), Some errNotEnabled)) \<and>
   rn_state (fst (Enable shut_down)) = RunnerEnabled \<and>
   snd (Start_locked (fst (Enable shut_down)) None [Some svcA]) = Inr (length (signals shut_down))"
proof -
  have ne: "[Some svcA] \<noteq> []" by simp
  note T = shutdown_closes_runner_until_Enable [OF Shutdown_new_example,
      where v = shut_down and u = shut_down and svcs = "[Some svcA]" and ctx' = None
        and acts' = "[]" and br' = ViaSignal]
  from T have sd: "rn_state shut_down = RunnerShutdown" by (rule conjunct1)
  from T sd ne Shutdown_new_example show ?thesis by blast
qed

theorem Start_after_Shutdown_counterexample:
  "Shutdown world_new None [] ViaSignal = Some (Inr (shut_down, None)) \<and>
   Start shut_down None [] [] ViaSignal = Some (shut_down, None)"
  using Shutdown_new_example by (simp add: Start_def)




text \<open>
  C5, as amended. The end path notifies under the registry lock: the events it adds
  to the trace begin with taking the lock and end with releasing it, and at every
  notification of a Signal in between the lock is held. The same holds for the
  critical sections of Start and of Halt and the completions they make themselves.
\<close>

theorem notified_under_lock:
  "(p < length (heap w) \<longrightarrow>
      notify_locks False (new_events w (fst (ended w p err))) =
        replicate (length (notifications (new_events w (fst (ended w p err))))) True \<and>
      hd (new_events w (fst (ended w p err))) = EvLock \<and>
      last (new_events w (fst (ended w p err))) = EvUnlock) \<and>
   notify_locks False (new_events w (fst (Start_locked w ctx svcs))) =
     replicate (length (notifications (new_events w (fst (Start_locked w ctx svcs))))) True \<and>
   notify_locks False (new_events w (fst (Halt_locked w svcs))) =
     replicate (length (notifications (new_events w (fst (Halt_locked w svcs))))) True"
proof (intro conjI impI)
  assume p: "p < length (heap w)"
  from ended_as_section [OF p, of err] obtain w' where
    w': "fst (ended w p err) = Unlock w'" "quiet (Lock w) w'" by blast
  have l: "trace (Lock w) = trace w @ [EvLock]" by simp
  note s = section_under_lock [OF w'(2) l]
  show "notify_locks False (new_events w (fst (ended w p err))) =
        replicate (length (notifications (new_events w (fst (ended w p err))))) True"
    using s(1) by (simp add: w'(1))
  show "hd (new_events w (fst (ended w p err))) = EvLock" using s(2) by (simp add: w'(1))
  show "last (new_events w (fst (ended w p err))) = EvUnlock" using s(3) by (simp add: w'(1))
next
  from Start_locked_as_section [of w ctx svcs] obtain v w' where
    w': "fst (Start_locked w ctx svcs) = Unlock w'" "quiet v w'" "trace v = trace w @ [EvLock]"
    by blast
  show "notify_locks False (new_events w (fst (Start_locked w ctx svcs))) =
     replicate (length (notifications (new_events w (fst (Start_locked w ctx svcs))))) True"
    using section_under_lock(1) [OF w'(2,3)] by (simp add: w'(1))
next
  from Halt_locked_as_section [of w svcs] obtain v w' where
    w': "fst (Halt_locked w svcs) = Unlock w'" "quiet v w'" "trace v = trace w @ [EvLock]"
    by blast
  show "notify_locks False (new_events w (fst (Halt_locked w svcs))) =
     replicate (length (notifications (new_events w (fst (Halt_locked w svcs))))) True"
    using section_under_lock(1) [OF w'(2,3)] by (simp add: w'(1))
qed

theorem notified_under_lock_witness:
  "0 < length (heap world_starting) \<and>
   notifications (new_events world_starting (fst (ended world_starting 0 (Some (Errorf ''boom'')))))
     = [(0, Some (Errorf ''boom''))] \<and>
   notify_locks False (new_events world_starting (fst (ended world_starting 0 (Some (Errorf ''boom'')))))
     = [True] \<and>
   notifications (new_events world_starting (fst (Start_locked world_starting None [Some svcA])))
     = [(1, Some errAlreadyRunning)] \<and>
   notify_locks False (new_events world_starting (fst (Start_locked world_starting None [Some svcA])))
     = [True] \<and>
   notifications (new_events world_starting (fst (Halt_locked world_starting [Some svcB])))
     = [(1, None)] \<and>
   notify_locks False (new_events world_starting (fst (Halt_locked world_starting [Some svcB])))
     = [True]"
proof -
  have a: "0 < length (heap world_starting)" by (simp add: world_starting_eq)
  have n1: "notifications (new_events world_starting
      (fst (ended world_starting 0 (Some (Errorf ''boom''))))) = [(0, Some (Errorf ''boom''))]"
    by code_simp
  have n2: "notifications (new_events world_starting
      (fst (Start_locked world_starting None [Some svcA]))) = [(1, Some errAlreadyRunning)]"
    by code_simp
  have n3: "notifications (new_events world_starting
      (fst (Halt_locked world_starting [Some svcB]))) = [(1, None)]"
    by code_simp
  note T = notified_under_lock [of 0 world_starting "Some (Errorf ''boom'')" None "[Some svcA]"]
  note U = notified_under_lock [of 0 world_starting "Some (Errorf ''boom'')" None "[Some svcB]"]
  from T a n1 have 1: "notify_locks False (new_events world_starting
      (fst (ended world_starting 0 (Some (Errorf ''boom''))))) = [True]" by simp
  from T n2 have 2: "notify_locks False (new_events world_starting
      (fst (Start_locked world_starting None [Some svcA]))) = [True]" by simp
  from U n3 have 3: "notify_locks False (new_events world_starting
      (fst (Halt_locked world_starting [Some svcB]))) = [True]" by simp
  from a n1 n2 n3 1 2 3 show ?thesis by (intro conjI)
qed

theorem waiter_notified_under_lock_counterexample:
  "new_events world_halting (fst (ended world_halting 0 None))
     = [EvLock, EvDelete svcA, EvRsLock 0, EvDone 1 None, EvRsUnlock 0, EvUnlock] \<and>
   notify_locks False (new_events world_halting (fst (ended world_halting 0 None))) = [True]"
  by code_simp

text \<open>
  C6, as amended. On an Enabled runner, a Start call that contains a registered
  descriptor \<open>D\<close> whose Runnable is not nil completes a slot of its Signal with
  "service already running"; if the caller has set the Runnable of \<open>D\<close> to nil, the
  slot is completed with nil, since Start tests the Runnable before it looks \<open>D\<close> up.
  On a runner that is not Enabled the call is refused as a whole. In every case the
  registry still maps \<open>D\<close> to the same record, the record is what it was, and
  \<open>State\<close> of \<open>D\<close> is what it was.
\<close>

theorem Start_of_registered_descriptor:
  assumes "well_formed w" and "Some D \<in> set svcs" and "map_of (services w) D = Some p"
  shows "(rn_state w = RunnerEnabled \<longrightarrow>
            snd (Start_locked w ctx svcs) = Inr (length (signals w)) \<and>
            (Runnable (descriptors w ! D) \<noteq> None \<longrightarrow>
               (length (signals w), Some errAlreadyRunning)
                 \<in> set (notifications (new_events w (fst (Start_locked w ctx svcs))))) \<and>
            (Runnable (descriptors w ! D) = None \<longrightarrow>
               (length (signals w), None)
                 \<in> set (notifications (new_events w (fst (Start_locked w ctx svcs)))))) \<and>
         (rn_state w \<noteq> RunnerEnabled \<longrightarrow>
            Start_locked w ctx svcs = (Unlock (Lock w), Inl errNotEnabled)) \<and>
         map_of (services (fst (Start_locked w ctx svcs))) D = Some p \<and>
         heap (fst (Start_locked w ctx svcs)) ! p = heap w ! p \<and>
         snd (State (fst (Start_locked w ctx svcs)) (Some D) []) = snd (State w (Some D) [])"
proof -
  let ?w' = "fst (Start_locked w ctx svcs)"
  let ?rdy = "length (signals w)"
  have mem: "(D, p) \<in> set (services w)" using assms(3) by (rule map_of_SomeD)
  with assms(1) have p: "p < length (heap w)"
    by (auto simp: well_formed_def registry_ok_def)
  have not_en: "Start_locked w ctx svcs = (Unlock (Lock w), Inl errNotEnabled)"
    if "rn_state w \<noteq> RunnerEnabled"
    using that by (simp add: Start_locked_def)
  let ?v = "fst (NewSignal (Lock w) (length svcs))"
  let ?l = "Start_loop ?v ctx ?rdy svcs"
  have en: "Start_locked w ctx svcs = (Unlock ?l, Inr ?rdy)" if "rn_state w = RunnerEnabled"
    using that by (simp add: Start_locked_def Let_def split_beta)
  have "quiet ?v ?l" by simp
  then obtain xs where xs: "trace ?l = trace ?v @ xs" "new_events ?v ?l = xs"
    by (rule quietE)
  then have ev: "new_events w (Unlock ?l) = EvLock # xs @ [EvUnlock]"
    by (simp add: new_events_def)
  have 1: "(?rdy, Some errAlreadyRunning) \<in> set (notifications (new_events w ?w'))"
    if e: "rn_state w = RunnerEnabled" and rn: "Runnable (descriptors w ! D) \<noteq> None"
  proof -
    have m: "map_of (services ?v) D = Some p" using assms(3) by simp
    have rn': "Runnable (descriptors ?v ! D) \<noteq> None" using rn by simp
    have d: "EvDone ?rdy (Some errAlreadyRunning) \<in> set (new_events ?v ?l)"
      using assms(2) m rn' by (rule Start_loop_already_running)
    with ev xs(2) show ?thesis by (simp add: en [OF e] notifications_mem)
  qed
  have n1: "(?rdy, None) \<in> set (notifications (new_events w ?w'))"
    if e: "rn_state w = RunnerEnabled" and rn: "Runnable (descriptors w ! D) = None"
  proof -
    have rn': "Runnable (descriptors ?v ! D) = None" using rn by simp
    have d: "EvDone ?rdy None \<in> set (new_events ?v ?l)"
      using assms(2) rn' by (rule Start_loop_no_Runnable)
    with ev xs(2) show ?thesis by (simp add: en [OF e] notifications_mem)
  qed
  have sv: "prefix (services w) (services ?w')"
  proof (cases "rn_state w = RunnerEnabled")
    case True
    have "prefix (services ?v) (services ?l)" using Start_loop_prefix [of ?v ctx ?rdy svcs] by simp
    with True show ?thesis by (simp add: en)
  next
    case False
    then show ?thesis by (simp add: not_en)
  qed
  have hp: "prefix (heap w) (heap ?w')"
  proof (cases "rn_state w = RunnerEnabled")
    case True
    have "prefix (heap ?v) (heap ?l)" using Start_loop_prefix [of ?v ctx ?rdy svcs] by simp
    with True show ?thesis by (simp add: en)
  next
    case False
    then show ?thesis by (simp add: not_en)
  qed
  have 2: "map_of (services ?w') D = Some p" using sv assms(3) by (rule map_of_prefix)
  have 3: "heap ?w' ! p = heap w ! p" using hp p by (rule nth_prefix)
  have "snd (State ?w' (Some D) []) = state (heap ?w' ! p)"
    using 2 by (simp add: State_def Let_def lookup_def rs_State_def)
  moreover have "snd (State w (Some D) []) = state (heap w ! p)"
    using assms(3) by (simp add: State_def Let_def lookup_def rs_State_def)
  ultimately have 4: "snd (State ?w' (Some D) []) = snd (State w (Some D) [])" using 3 by simp
  have 5: "rn_state w = RunnerEnabled \<longrightarrow>
            snd (Start_locked w ctx svcs) = Inr (length (signals w)) \<and>
            (Runnable (descriptors w ! D) \<noteq> None \<longrightarrow>
               (length (signals w), Some errAlreadyRunning)
                 \<in> set (notifications (new_events w (fst (Start_locked w ctx svcs))))) \<and>
            (Runnable (descriptors w ! D) = None \<longrightarrow>
               (length (signals w), None)
                 \<in> set (notifications (new_events w (fst (Start_locked w ctx svcs)))))"
  proof
    assume e: "rn_state w = RunnerEnabled"
    have a: "snd (Start_locked w ctx svcs) = Inr (length (signals w))"
      unfolding en [OF e] by simp
    have b: "Runnable (descriptors w ! D) \<noteq> None \<longrightarrow>
               (length (signals w), Some errAlreadyRunning)
                 \<in> set (notifications (new_events w (fst (Start_locked w ctx svcs))))"
      using 1 [OF e] by blast
    have c: "Runnable (descriptors w ! D) = None \<longrightarrow>
               (length (signals w), None)
                 \<in> set (notifications (new_events w (fst (Start_locked w ctx svcs))))"
      using n1 [OF e] by blast
    from a b c
    show "snd (Start_locked w ctx svcs) = Inr (length (signals w)) \<and>
            (Runnable (descriptors w ! D) \<noteq> None \<longrightarrow>
               (length (signals w), Some errAlreadyRunning)
                 \<in> set (notifications (new_events w (fst (Start_locked w ctx svcs))))) \<and>
            (Runnable (descriptors w ! D) = None \<longrightarrow>
               (length (signals w), None)
                 \<in> set (notifications (new_events w (fst (Start_locked w ctx svcs)))))"
      by (intro conjI)
  qed
  have 6: "rn_state w \<noteq> RunnerEnabled \<longrightarrow>
            Start_locked w ctx svcs = (Unlock (Lock w), Inl errNotEnabled)"
    using not_en by blast
  from 5 6 2 3 4 show ?thesis by (intro conjI)
qed

theorem Start_of_registered_descriptor_witness:
  "well_formed world_started \<and> Some svcA \<in> set [Some svcB, Some svcA] \<and>
   map_of (services world_started) svcA = Some 0 \<and> rn_state world_started = RunnerEnabled \<and>
   Runnable (descriptors world_started ! svcA) \<noteq> None \<and>
   (1, Some errAlreadyRunning)
     \<in> set (notifications (new_events world_started
           (fst (Start_locked world_started None [Some svcB, Some svcA])))) \<and>
   map_of (services (fst (Start_locked world_started None [Some svcB, Some svcA]))) svcA = Some 0 \<and>
   heap (fst (Start_locked world_started None [Some svcB, Some svcA])) ! 0 = heap world_started ! 0 \<and>
   snd (State (fst (Start_locked world_started None [Some svcB, Some svcA])) (Some svcA) [])
     = Started \<and>
   well_formed world_no_Runnable \<and> map_of (services world_no_Runnable) svcA = Some 0 \<and>
   rn_state world_no_Runnable = RunnerEnabled \<and>
   Runnable (descriptors world_no_Runnable ! svcA) = None \<and>
   (1, None) \<in> set (notifications (new_events world_no_Runnable
           (fst (Start_locked world_no_Runnable None [Some svcB, Some svcA])))) \<and>
   well_formed world_suspended \<and> map_of (services world_suspended) svcA = Some 0 \<and>
   rn_state world_suspended \<noteq> RunnerEnabled \<and>
   Start_locked world_suspended None [Some svcB, Some svcA]
     = (Unlock (Lock world_suspended), Inl errNotEnabled) \<and>
   heap (fst (Start_locked world_suspended None [Some svcB, Some svcA])) ! 0
     = heap world_suspended ! 0"
proof -
  have a: "Some svcA \<in> set [Some svcB, Some svcA]" by simp
  have b: "map_of (services world_started) svcA = Some 0" by (simp add: world_started_eq)
  have c: "rn_state world_started = RunnerEnabled" by (simp add: world_started_eq)
  have d: "length (signals world_started) = 1" by (simp add: world_started_eq)
  have e: "snd (State world_started (Some svcA) []) = Started" by code_simp
  have rn: "Runnable (descriptors world_started ! svcA) \<noteq> None" by code_simp
  note T = Start_of_registered_descriptor [OF wf_world_started a b, of None]
  from T c rn have "(length (signals world_started), Some errAlreadyRunning)
              \<in> set (notifications (new_events world_started
                    (fst (Start_locked world_started None [Some svcB, Some svcA]))))"
    by blast
  then have 1: "(1, Some errAlreadyRunning)
     \<in> set (notifications (new_events world_started
           (fst (Start_locked world_started None [Some svcB, Some svcA]))))"
    unfolding d .
  from T have 2: "map_of (services (fst (Start_locked world_started None [Some svcB, Some svcA]))) svcA = Some 0"
    and 3: "heap (fst (Start_locked world_started None [Some svcB, Some svcA])) ! 0 = heap world_started ! 0"
    and s4: "snd (State (fst (Start_locked world_started None [Some svcB, Some svcA])) (Some svcA) [])
        = snd (State world_started (Some svcA) [])"
    by blast+
  from s4 e have 4: "snd (State (fst (Start_locked world_started None [Some svcB, Some svcA]))
      (Some svcA) []) = Started"
    by (rule trans)
  have b': "map_of (services world_no_Runnable) svcA = Some 0" by code_simp
  have c': "rn_state world_no_Runnable = RunnerEnabled" by code_simp
  have d': "length (signals world_no_Runnable) = 1" by code_simp
  have rn': "Runnable (descriptors world_no_Runnable ! svcA) = None" by code_simp
  note U = Start_of_registered_descriptor [OF wf_world_no_Runnable a b', of None]
  from U c' rn' have "(length (signals world_no_Runnable), None)
              \<in> set (notifications (new_events world_no_Runnable
                    (fst (Start_locked world_no_Runnable None [Some svcB, Some svcA]))))"
    by blast
  then have 5: "(1, None) \<in> set (notifications (new_events world_no_Runnable
           (fst (Start_locked world_no_Runnable None [Some svcB, Some svcA]))))"
    unfolding d' .
  have c'': "rn_state world_suspended \<noteq> RunnerEnabled" by (simp add: world_suspended_eq)
  note V = Start_of_registered_descriptor [OF wf_world_suspended a suspended_registered, of None]
  from V c'' have 6: "Start_locked world_suspended None [Some svcB, Some svcA]
     = (Unlock (Lock world_suspended), Inl errNotEnabled)" by blast
  from V have 7: "heap (fst (Start_locked world_suspended None [Some svcB, Some svcA])) ! 0
     = heap world_suspended ! 0" by blast
  from wf_world_started a b c rn 1 2 3 4 wf_world_no_Runnable b' c' rn' 5
    wf_world_suspended suspended_registered c'' 6 7
  show ?thesis by (intro conjI)
qed

theorem Start_of_registered_counterexample:
  "map_of (services world_suspended) svcA = Some 0 \<and>
   Start world_suspended None [Some svcA] [] ViaSignal
     = Some (Unlock (Lock world_suspended), Some errNotEnabled) \<and>
   notifications (new_events world_suspended
       (fst (Start_locked world_suspended None [Some svcA]))) = [] \<and>
   map_of (services world_no_Runnable) svcA = Some 0 \<and>
   rn_state world_no_Runnable = RunnerEnabled \<and>
   notifications (new_events world_no_Runnable
       (fst (Start_locked world_no_Runnable None [Some svcA]))) = [(1, None)] \<and>
   Start world_no_Runnable None [Some svcA] [] ViaSignal
     = Some (fst (Start_locked world_no_Runnable None [Some svcA]), None)"
proof -
  have 1: "map_of (services world_no_Runnable) svcA = Some 0" by code_simp
  have 2: "rn_state world_no_Runnable = RunnerEnabled" by code_simp
  have 3: "notifications (new_events world_no_Runnable
       (fst (Start_locked world_no_Runnable None [Some svcA]))) = [(1, None)]" by code_simp
  have 4: "Start world_no_Runnable None [Some svcA] [] ViaSignal
     = Some (fst (Start_locked world_no_Runnable None [Some svcA]), None)" by code_simp
  from suspended_registered suspended_Start suspended_no_notification 1 2 3 4
  show ?thesis by (intro conjI)
qed

text \<open>
  C7. A batch Start that completes via its Signal returns nil if every slot of the
  Signal was completed with nil, and otherwise the aggregate of all the errors in the
  slots, none left out. So does a batch Halt: the errors that \<open>halting\<close> returned come
  first in its aggregate, and from a well-formed world there are none, since
  \<open>halting\<close> accepts every registered record.
\<close>

theorem batch_returns_all_errors:
  assumes "svcs \<noteq> []"
  shows "(rn_state w = RunnerEnabled \<longrightarrow> Start w ctx svcs acts ViaSignal = Some (w', r) \<longrightarrow>
            (r \<noteq> None \<longleftrightarrow> (\<exists>e. Some e \<in> set (slots (signals w' ! length (signals w))))) \<and>
            (r \<noteq> None \<longrightarrow>
               r = Some (serviceErrors (slot_errors (signals w' ! length (signals w))))) \<and>
            (\<forall>e. Some e \<in> set (slots (signals w' ! length (signals w)))
               \<longrightarrow> e \<in> set (slot_errors (signals w' ! length (signals w))))) \<and>
         (Halt w ctx svcs acts ViaSignal = Some (v', r') \<longrightarrow>
            (r' \<noteq> None \<longleftrightarrow> snd (snd (Halt_locked w svcs)) \<noteq> [] \<or>
                 (\<exists>e. Some e \<in> set (slots (signals v' ! length (signals w))))) \<and>
            (r' \<noteq> None \<longrightarrow>
               r' = Some (serviceErrors (snd (snd (Halt_locked w svcs)) @
                            slot_errors (signals v' ! length (signals w))))) \<and>
            (\<forall>e. Some e \<in> set (slots (signals v' ! length (signals w)))
               \<longrightarrow> e \<in> set (slot_errors (signals v' ! length (signals w)))) \<and>
            (well_formed w \<longrightarrow> snd (snd (Halt_locked w svcs)) = []))"
proof (intro conjI impI allI)
  assume "rn_state w = RunnerEnabled" and "Start w ctx svcs acts ViaSignal = Some (w', r)"
  note r = Start_via_signal [OF assms this]
  show "(r \<noteq> None) = (\<exists>e. Some e \<in> set (slots (signals w' ! length (signals w))))"
    using r by (simp add: slot_errors_empty)
  show "r = Some (serviceErrors (slot_errors (signals w' ! length (signals w))))" if "r \<noteq> None"
    using r that by (simp split: if_splits)
next
  fix e assume "Some e \<in> set (slots (signals w' ! length (signals w)))"
  then show "e \<in> set (slot_errors (signals w' ! length (signals w)))"
    by (simp add: set_slot_errors)
next
  assume "Halt w ctx svcs acts ViaSignal = Some (v', r')"
  note r = Halt_via_signal [OF assms this]
  show "(r' \<noteq> None) = (snd (snd (Halt_locked w svcs)) \<noteq> [] \<or>
                 (\<exists>e. Some e \<in> set (slots (signals v' ! length (signals w)))))"
    using r by (simp add: slot_errors_empty)
  show "r' = Some (serviceErrors (snd (snd (Halt_locked w svcs)) @
                            slot_errors (signals v' ! length (signals w))))" if "r' \<noteq> None"
    using r that by (simp split: if_splits)
next
  fix e assume "Some e \<in> set (slots (signals v' ! length (signals w)))"
  then show "e \<in> set (slot_errors (signals v' ! length (signals w)))"
    by (simp add: set_slot_errors)
next
  assume "well_formed w"
  then show "snd (snd (Halt_locked w svcs)) = []" by (rule wf_Halt_locked)
qed


theorem batch_returns_all_errors_witness:
  "[Some svcA, Some svcB] \<noteq> [] \<and> rn_state world_new = RunnerEnabled \<and>
   Start world_new None [Some svcA, Some svcB]
       [ActReady 0, ActEnded 1 (Some (Errorf ''boom''))] ViaSignal
     = Some (world_two, Some (serviceErrors [Errorf ''boom''])) \<and>
   slots (signals world_two ! 0) = [None, Some (Errorf ''boom'')] \<and>
   Errorf ''boom'' \<in> set (slot_errors (signals world_two ! 0)) \<and>
   [Some svcA] \<noteq> [] \<and> well_formed world_started \<and>
   Halt world_started None [Some svcA] [ActEnded 0 (Some (Errorf ''boom''))] ViaSignal
     = Some (fst (ended world_halting 0 (Some (Errorf ''boom''))),
             Some (serviceErrors [Errorf ''boom''])) \<and>
   snd (snd (Halt_locked world_started [Some svcA])) = [] \<and>
   Errorf ''boom'' \<in> set (slot_errors
       (signals (fst (ended world_halting 0 (Some (Errorf ''boom'')))) ! 1))"
proof -
  have n1: "[Some svcA, Some svcB] \<noteq> []" and n2: "[Some svcA] \<noteq> []" by simp_all
  have en: "rn_state world_new = RunnerEnabled" by (simp add: world_new_def NewRunner_def)
  have l0: "length (signals world_new) = 0" by (simp add: world_new_def NewRunner_def)
  have l1: "length (signals world_started) = 1" by (simp add: world_started_eq)
  have m1: "Some (Errorf ''boom'') \<in> set (slots (signals world_two ! 0))"
    by (subst world_two_slots) simp
  have m2: "Some (Errorf ''boom'') \<in> set (slots
       (signals (fst (ended world_halting 0 (Some (Errorf ''boom'')))) ! 1))"
    by (subst Halt_failing_slots) simp
  note A = batch_returns_all_errors [OF n1, where w = world_new and ctx = None
      and acts = "[ActReady 0, ActEnded 1 (Some (Errorf ''boom''))]" and w' = world_two
      and r = "Some (serviceErrors [Errorf ''boom''])"]
  note B = batch_returns_all_errors [OF n2, where w = world_started and ctx = None
      and acts = "[ActEnded 0 (Some (Errorf ''boom''))]"
      and v' = "fst (ended world_halting 0 (Some (Errorf ''boom'')))"
      and r' = "Some (serviceErrors [Errorf ''boom''])"]
  from A en Start_two m1 have 1: "Errorf ''boom'' \<in> set (slot_errors (signals world_two ! 0))"
    unfolding l0 by blast
  from B Halt_failing m2 have 2: "Errorf ''boom'' \<in> set (slot_errors
       (signals (fst (ended world_halting 0 (Some (Errorf ''boom'')))) ! 1))"
    unfolding l1 by blast
  from B Halt_failing wf_world_started
  have 3: "snd (snd (Halt_locked world_started [Some svcA])) = []" by blast
  from n1 n2 en Start_two world_two_slots wf_world_started Halt_failing 1 2 3
  show ?thesis by (intro conjI)
qed

text \<open>
  C8, as amended. Halt of a descriptor that is not registered completes its slot with
  nil, in a call by itself and in a batch, and leaves registry and records alone. A
  call \<open>Halt(R, D)\<close> for it alone finds its Signal complete at once: whatever the
  workers do meanwhile, the Signal branch returns nil. While the context is nil or
  not done, no other branch can be taken; when the context is done, the select can
  take its branch as well, and Halt then returns the error of the context.
\<close>

theorem Halt_unregistered_returns_nil:
  assumes "lookup w D = None"
  shows "Halt_one (w, errs) dn D = (Done w dn None, errs) \<and>
         (D \<in> set svcs \<longrightarrow>
            (length (signals w), None)
              \<in> set (notifications (new_events w (fst (Halt_locked w svcs))))) \<and>
         notifications (new_events w (fst (Halt_locked w [D]))) = [(length (signals w), None)] \<and>
         services (fst (Halt_locked w [D])) = services w \<and>
         heap (fst (Halt_locked w [D])) = heap w \<and>
         (well_formed w \<longrightarrow>
            Halt w ctx [D] acts ViaSignal = Some (run (fst (Halt_locked w [D])) acts, None)) \<and>
         (ctxDone ctx = None \<longrightarrow> Halt w ctx [D] acts ViaCtx = None) \<and>
         (ctxDone ctx = Some e \<longrightarrow>
            Halt w ctx [D] acts ViaCtx = Some (run (fst (Halt_locked w [D])) acts, Some e))"
proof (intro conjI impI)
  let ?dn = "length (signals w)"
  let ?w1 = "Unlock (Done (Lock (fst (NewSignal w 1))) ?dn None)"
  note hl = Halt_locked_unregistered [OF assms]
  show "Halt_one (w, errs) dn D = (Done w dn None, errs)"
    using assms by (rule Halt_one_unregistered)
  show "notifications (new_events w (fst (Halt_locked w [D]))) = [(?dn, None)]"
    by (simp add: hl new_events_def)
  show "services (fst (Halt_locked w [D])) = services w" by (simp add: hl)
  show "heap (fst (Halt_locked w [D])) = heap w" by (simp add: hl)
  show "Halt w ctx [D] acts ViaCtx = None" if "ctxDone ctx = None"
    using that by (simp add: Halt_def hl select_def)
  show "Halt w ctx [D] acts ViaCtx = Some (run (fst (Halt_locked w [D])) acts, Some e)"
    if "ctxDone ctx = Some e"
    using that by (simp add: Halt_def hl select_def)
  show "(?dn, None) \<in> set (notifications (new_events w (fst (Halt_locked w svcs))))"
    if D: "D \<in> set svcs"
  proof -
    let ?v = "Lock (fst (NewSignal w (length svcs)))"
    let ?l = "fst (Halt_loop (?v, []) ?dn svcs)"
    have "lookup ?v D = lookup w D" by (rule lookup_frame) simp
    with assms have "lookup ?v D = None" by simp
    with Halt_loop_unregistered [OF D, of "(?v, [])" ?dn]
    have d: "EvDone ?dn None \<in> set (new_events ?v ?l)" by simp
    have "quiet ?v ?l" using quiet_Halt_loop [of "(?v, [])" ?dn svcs] by simp
    then obtain xs where xs: "trace ?l = trace ?v @ xs" "new_events ?v ?l = xs"
      by (rule quietE)
    have "fst (Halt_locked w svcs) = Unlock ?l" by (simp add: Halt_locked_def Let_def split_beta)
    with xs(1) have "new_events w (fst (Halt_locked w svcs)) = EvLock # xs @ [EvUnlock]"
      by (simp add: new_events_def)
    with d xs(2) show ?thesis by (simp add: notifications_mem)
  qed
  show "Halt w ctx [D] acts ViaSignal = Some (run (fst (Halt_locked w [D])) acts, None)"
    if wf: "well_formed w"
  proof -
    have "\<not> referenced w ?dn" using wf by (rule fresh_unreferenced) simp
    then have "\<not> referenced ?w1 ?dn" by (simp add: referenced_def)
    then have "signals (run ?w1 acts) ! ?dn = signals ?w1 ! ?dn" by (rule run_unreferenced)
    also have "\<dots> = \<lparr>cap = 1, slots = [None]\<rparr>" by (simp add: complete_def)
    finally have "Waiter (signals (run ?w1 acts) ! ?dn) = Some None"
      by (simp add: Waiter_def slot_errors_def)
    then show ?thesis by (simp add: Halt_def hl select_def aggregate_def)
  qed
qed

theorem Halt_unregistered_witness:
  "lookup world_started (Some svcB) = None \<and> well_formed world_started \<and>
   notifications (new_events world_started (fst (Halt_locked world_started [Some svcB])))
     = [(1, None)] \<and>
   Halt world_started None [Some svcB] [ActEnded 0 (Some (Errorf ''boom''))] ViaSignal
     = Some (run (fst (Halt_locked world_started [Some svcB]))
               [ActEnded 0 (Some (Errorf ''boom''))], None) \<and>
   Halt world_started None [Some svcB] [ActEnded 0 (Some (Errorf ''boom''))] ViaCtx = None \<and>
   ctxDone (Some (Some Canceled)) = Some Canceled \<and>
   Halt world_started (Some (Some Canceled)) [Some svcB] [] ViaCtx
     = Some (run (fst (Halt_locked world_started [Some svcB])) [], Some Canceled)"
proof -
  have a: "lookup world_started (Some svcB) = None" by code_simp
  have l: "length (signals world_started) = 1" by (simp add: world_started_eq)
  have c: "ctxDone None = None" by (simp add: ctxDone_def)
  have c': "ctxDone (Some (Some Canceled)) = Some Canceled" by (simp add: ctxDone_def)
  note T = Halt_unregistered_returns_nil [OF a, where ctx = None
      and acts = "[ActEnded 0 (Some (Errorf ''boom''))]"]
  note U = Halt_unregistered_returns_nil [OF a, where ctx = "Some (Some Canceled)"
      and acts = "[]" and e = Canceled]
  from T have 1: "notifications (new_events world_started (fst (Halt_locked world_started [Some svcB])))
     = [(1, None)]" unfolding l by blast
  from T wf_world_started have 2:
    "Halt world_started None [Some svcB] [ActEnded 0 (Some (Errorf ''boom''))] ViaSignal
     = Some (run (fst (Halt_locked world_started [Some svcB]))
               [ActEnded 0 (Some (Errorf ''boom''))], None)" by blast
  from T c have 3:
    "Halt world_started None [Some svcB] [ActEnded 0 (Some (Errorf ''boom''))] ViaCtx = None"
    by blast
  from U c' have 4: "Halt world_started (Some (Some Canceled)) [Some svcB] [] ViaCtx
     = Some (run (fst (Halt_locked world_started [Some svcB])) [], Some Canceled)"
    by blast
  from a wf_world_started 1 2 3 c' 4 show ?thesis by (intro conjI)
qed

theorem Halt_unregistered_done_context_counterexample:
  "lookup world_new (Some svcB) = None \<and>
   Halt world_new (Some (Some Canceled)) [Some svcB] [] ViaCtx
     = Some (fst (Halt_locked world_new [Some svcB]), Some Canceled) \<and>
   Halt world_new (Some (Some Canceled)) [Some svcB] [] ViaSignal
     = Some (fst (Halt_locked world_new [Some svcB]), None)"
  by code_simp

text \<open>
  C9. When the branch of the outer cancellation is taken, which can be done exactly
  when the context is done, Start and Halt return the error of the context, and the
  world they leave is the world after their critical section and the steps the
  workers took meanwhile: the call adds nothing to it. In the world after the critical
  section of Start, a service the call launched is registered, Starting, with its done
  channel open; in the world after the critical section of Halt, a service that was
  registered is still registered, Halting, its worker still running.
\<close>

theorem cancelled_call_leaves_services:
  assumes "svcs \<noteq> []"
  shows "(rn_state w = RunnerEnabled \<longrightarrow>
            Start w ctx svcs acts ViaCtx =
              (case ctxDone ctx of
                 None \<Rightarrow> None
               | Some e \<Rightarrow> Some (run (fst (Start_locked w ctx svcs)) acts, Some e))) \<and>
         Halt w ctx svcs acts ViaCtx =
           (case ctxDone ctx of
              None \<Rightarrow> None
            | Some e \<Rightarrow> Some (run (fst (Halt_locked w svcs)) acts, Some e)) \<and>
         (rn_state w = RunnerEnabled \<longrightarrow> Some D \<in> set svcs \<longrightarrow> Runnable (descriptors w ! D) \<noteq> None \<longrightarrow>
            map_of (services w) D = None \<longrightarrow>
            (\<exists>p. launched (fst (Start_locked w ctx svcs)) D p)) \<and>
         (well_formed w \<longrightarrow> Some D \<in> set svcs \<longrightarrow> map_of (services w) D = Some q \<longrightarrow>
            map_of (services (fst (Halt_locked w svcs))) D = Some q \<and>
            state (heap (fst (Halt_locked w svcs)) ! q) = Halting \<and>
            running (fst (Halt_locked w svcs)) q)"
proof (intro conjI impI)
  show "Start w ctx svcs acts ViaCtx =
     (case ctxDone ctx of
        None \<Rightarrow> None
      | Some e \<Rightarrow> Some (run (fst (Start_locked w ctx svcs)) acts, Some e))"
    if "rn_state w = RunnerEnabled"
    using assms that by (rule Start_via_ctx)
  show "Halt w ctx svcs acts ViaCtx =
     (case ctxDone ctx of
        None \<Rightarrow> None
      | Some e \<Rightarrow> Some (run (fst (Halt_locked w svcs)) acts, Some e))"
    using assms by (rule Halt_via_ctx)
  show "\<exists>p. launched (fst (Start_locked w ctx svcs)) D p"
    if "rn_state w = RunnerEnabled" "Some D \<in> set svcs" "Runnable (descriptors w ! D) \<noteq> None"
      "map_of (services w) D = None"
    using that by (rule Start_locked_launches)
next
  assume h: "well_formed w" "Some D \<in> set svcs" "map_of (services w) D = Some q"
  show "map_of (services (fst (Halt_locked w svcs))) D = Some q" using h by (rule Halt_locked_halts)
  show "state (heap (fst (Halt_locked w svcs)) ! q) = Halting" using h by (rule Halt_locked_halts)
  show "running (fst (Halt_locked w svcs)) q" using h by (rule Halt_locked_halts)
qed

theorem cancelled_call_witness:
  "[Some svcA] \<noteq> [] \<and> rn_state world_new = RunnerEnabled \<and>
   ctxDone (Some (Some DeadlineExceeded)) = Some DeadlineExceeded \<and>
   Start world_new (Some (Some DeadlineExceeded)) [Some svcA] [] ViaCtx
     = Some (run (fst (Start_locked world_new (Some (Some DeadlineExceeded)) [Some svcA])) [],
             Some DeadlineExceeded) \<and>
   Start world_new (Some (Some DeadlineExceeded)) [Some svcA] [] ViaCtx
     = Some (world_starting, Some DeadlineExceeded) \<and>
   launched world_starting svcA 0 \<and>
   well_formed world_started \<and> map_of (services world_started) svcA = Some 0 \<and>
   Halt world_started (Some (Some DeadlineExceeded)) [Some svcA] [] ViaCtx
     = Some (world_halting, Some DeadlineExceeded) \<and>
   map_of (services world_halting) svcA = Some 0 \<and>
   state (heap world_halting ! 0) = Halting \<and> running world_halting 0"
proof -
  have n: "[Some svcA] \<noteq> []" by simp
  have en: "rn_state world_new = RunnerEnabled" by (simp add: world_new_def NewRunner_def)
  have c: "ctxDone (Some (Some DeadlineExceeded)) = Some DeadlineExceeded"
    by (simp add: ctxDone_def)
  have m: "map_of (services world_started) svcA = Some 0" by (simp add: world_started_eq)
  have l: "launched world_starting svcA 0" by (simp add: launched_def world_starting_eq)
  have i: "Some svcA \<in> set [Some svcA]" by simp
  note A = cancelled_call_leaves_services [OF n, where w = world_new
      and ctx = "Some (Some DeadlineExceeded)" and acts = "[]"]
  note B = cancelled_call_leaves_services [OF n, where w = world_started and D = svcA and q = 0]
  from A en c have 1: "Start world_new (Some (Some DeadlineExceeded)) [Some svcA] [] ViaCtx
     = Some (run (fst (Start_locked world_new (Some (Some DeadlineExceeded)) [Some svcA])) [],
             Some DeadlineExceeded)" by simp
  from B wf_world_started i m
  have 2: "map_of (services (fst (Halt_locked world_started [Some svcA]))) svcA = Some 0 \<and>
            state (heap (fst (Halt_locked world_started [Some svcA])) ! 0) = Halting \<and>
            running (fst (Halt_locked world_started [Some svcA])) 0" by blast
  then have 3: "map_of (services world_halting) svcA = Some 0 \<and>
   state (heap world_halting ! 0) = Halting \<and> running world_halting 0"
    unfolding world_halting_def .
  from n en c 1 cancelled_Start_example l wf_world_started m cancelled_Halt_example 3
  show ?thesis by (intro conjI) blast+
qed

text \<open>
  C10. Start with an empty list of descriptors returns nil, and so does Halt, whatever
  the RunnerState is (also Suspended and Shutdown), whatever the workers do and
  whichever branch is asked for; the world that comes back is the world that went in:
  registry, RunnerState and trace are untouched, so the lock was never taken and the
  RunnerState never read.
\<close>

theorem empty_Start_Halt_return_nil:
  "Start w ctx [] acts br = Some (w, None) \<and> Halt w ctx [] acts br = Some (w, None)"
  by (simp add: Start_def Halt_def)

end
